theory Spec2Isabelle
  imports Main "HOL-Library.Log_Nat"
begin

section \<open>Data model of routes.go\<close>

text \<open>
  Modelled from the spec: the types \<^verbatim>\<open>PeerName\<close>, \<^verbatim>\<open>Peer\<close>, \<^verbatim>\<open>LocalPeer\<close> and \<^verbatim>\<open>Peers\<close> are
  declared outside routes.go. A peer name is "an opaque, totally-ordered, hashable
  identifier", here a number; a \<^verbatim>\<open>*Peer\<close> is identified by its immutable name;
  \<^verbatim>\<open>LocalPeer\<close> embeds \<^verbatim>\<open>*Peer\<close>; the \<^verbatim>\<open>*Peers\<close> handle is an address. What the handles
  point to changes over time and is read through a \<open>Topology\<close> below.
\<close>

type_synonym PeerName = nat

definition UnknownPeerName :: PeerName where
  \<comment> \<open>Modelled from the spec: the reserved sentinel that denotes "no next hop"; its
      declaration is not in routes.go. No proof below unfolds the value, only the
      closed evaluations at concrete inputs do.\<close>
  "UnknownPeerName = 0"

definition zero_PeerName :: PeerName where
  \<comment> \<open>Go's zero value of the type, what a failed map lookup yields.\<close>
  "zero_PeerName = 0"

datatype Peer = Peer (Name: PeerName)

type_synonym LocalPeer = Peer

type_synonym Peers = nat

type_synonym unicastRoutes = "PeerName \<rightharpoonup> PeerName"

type_synonym broadcastRoutes = "PeerName \<rightharpoonup> PeerName list"

text \<open>A registered \<^verbatim>\<open>func()\<close> is opaque: it is known by an identifier, and calling it is
  an event of the trace.\<close>

type_synonym callback = nat

text \<open>The value sent on the \<^verbatim>\<open>recalculate\<close> channel is always the nil pointer.\<close>

datatype signal = nil

record Routes =
  ourself :: LocalPeer
  peers :: Peers
  onChange :: "callback list"
  unicast :: unicastRoutes
  unicastAll :: unicastRoutes
  broadcast :: broadcastRoutes
  broadcastAll :: broadcastRoutes
  recalculate :: "signal option"
    \<comment> \<open>the buffer of \<^verbatim>\<open>make(chan *struct{}, 1)\<close>: empty, or holding one signal;
        \<^verbatim>\<open>wait\<close> and \<^verbatim>\<open>action\<close> are unbuffered and hold nothing\<close>

text \<open>
  The collaborators that routes.go calls and does not define are parameters. One value
  of the record is what they return while \<^verbatim>\<open>peers\<close> and \<^verbatim>\<open>ourself\<close> are read-locked, a
  snapshot of the topology:
  \<^item> \<open>byName ps\<close> is the map \<^verbatim>\<open>peers.byName\<close>;
  \<^item> \<open>Peer_Routes p stopAt establishedAndSymmetric\<close> is \<^verbatim>\<open>p.Routes(stopAt, ...)\<close>, with
    \<open>None\<close> for a nil \<^verbatim>\<open>stopAt\<close>;
  \<^item> \<open>ForEachConnectedPeer lp establishedAndSymmetric exclude\<close> is the sequence of remote
    peers on which \<^verbatim>\<open>lp.ForEachConnectedPeer(..., exclude, f)\<close> calls \<^verbatim>\<open>f\<close>, in call order.
\<close>

record Topology =
  byName :: "Peers \<Rightarrow> PeerName \<rightharpoonup> Peer"
  Peer_Routes :: "Peer \<Rightarrow> Peer option \<Rightarrow> bool \<Rightarrow> bool \<times> unicastRoutes"
  ForEachConnectedPeer :: "LocalPeer \<Rightarrow> bool \<Rightarrow> unicastRoutes \<Rightarrow> Peer list"

text \<open>What the serializer and its callers do, in program order.\<close>

datatype mutex = routes_mu | peers_mu | ourself_mu

datatype broadcastRef = ref_broadcast | ref_broadcastAll

datatype field = f_unicast | f_unicastAll | f_broadcast | f_broadcastAll

datatype event =
    RLock mutex
  | RUnlock mutex
  | Lock mutex
  | Unlock mutex
  | Call_calculate
  | Call_calculateUnicast bool
  | Call_calculateBroadcast PeerName bool
  | Call_callback callback
  | Assign field
  | Store broadcastRef PeerName "PeerName list"
  | Send_res "PeerName list"
  | Close_done

section \<open>Construction and the lock-protected accessors\<close>

definition NewRoutes :: "LocalPeer \<Rightarrow> Peers \<Rightarrow> Routes" where
  "NewRoutes ourself' peers' =
     \<lparr> ourself = ourself',
       peers = peers',
       onChange = [],
       unicast = [Name ourself' \<mapsto> UnknownPeerName],
       unicastAll = [Name ourself' \<mapsto> UnknownPeerName],
       broadcast = [Name ourself' \<mapsto> []],
       broadcastAll = [Name ourself' \<mapsto> []],
       recalculate = None \<rparr>"

definition OnChange :: "callback \<Rightarrow> Routes \<Rightarrow> Routes" where
  "OnChange cb r = r\<lparr>onChange := onChange r @ [cb]\<rparr>"

definition Unicast :: "Routes \<Rightarrow> PeerName \<Rightarrow> PeerName \<times> bool" where
  "Unicast r name =
     (case unicast r name of Some hop \<Rightarrow> (hop, True) | None \<Rightarrow> (zero_PeerName, False))"

definition UnicastAll :: "Routes \<Rightarrow> PeerName \<Rightarrow> PeerName \<times> bool" where
  "UnicastAll r name =
     (case unicastAll r name of Some hop \<Rightarrow> (hop, True) | None \<Rightarrow> (zero_PeerName, False))"

section \<open>The recalculation engine\<close>

definition calculateUnicast :: "Topology \<Rightarrow> Routes \<Rightarrow> bool \<Rightarrow> unicastRoutes" where
  "calculateUnicast T r establishedAndSymmetric =
     snd (Peer_Routes T (ourself r) None establishedAndSymmetric)"

definition calculateBroadcast :: "Topology \<Rightarrow> Routes \<Rightarrow> PeerName \<Rightarrow> bool \<Rightarrow> PeerName list" where
  "calculateBroadcast T r name establishedAndSymmetric =
     (case byName T (peers r) name of
        None \<Rightarrow> []
      | Some peer \<Rightarrow>
          (case Peer_Routes T peer (Some (ourself r)) establishedAndSymmetric of
             (found, reached) \<Rightarrow>
               if found
               then map Name (ForEachConnectedPeer T (ourself r) establishedAndSymmetric reached)
               else []))"

definition calculate :: "Topology \<Rightarrow> Routes \<Rightarrow> Routes \<times> event list" where
  "calculate T r =
     (let unicast' = calculateUnicast T r True;
          unicastAll' = calculateUnicast T r False;
          broadcast' = [Name (ourself r) \<mapsto> calculateBroadcast T r (Name (ourself r)) True];
          broadcastAll' = [Name (ourself r) \<mapsto> calculateBroadcast T r (Name (ourself r)) False]
      in (r\<lparr>unicast := unicast', unicastAll := unicastAll',
            broadcast := broadcast', broadcastAll := broadcastAll'\<rparr>,
          [Call_calculate, RLock peers_mu, RLock ourself_mu,
           Call_calculateUnicast True, Call_calculateUnicast False,
           Call_calculateBroadcast (Name (ourself r)) True,
           Call_calculateBroadcast (Name (ourself r)) False,
           RUnlock ourself_mu, RUnlock peers_mu,
           Lock routes_mu,
           Assign f_unicast, Assign f_unicastAll, Assign f_broadcast, Assign f_broadcastAll,
           Unlock routes_mu]
          @ map Call_callback (onChange r)))"

section \<open>Lazy broadcast fill\<close>

text \<open>\<^verbatim>\<open>*broadcast\<close> for the pointer the caller passed.\<close>

fun deref :: "broadcastRef \<Rightarrow> Routes \<Rightarrow> broadcastRoutes" where
  "deref ref_broadcast r = broadcast r"
| "deref ref_broadcastAll r = broadcastAll r"

fun store :: "broadcastRef \<Rightarrow> PeerName \<Rightarrow> PeerName list \<Rightarrow> Routes \<Rightarrow> Routes" where
  "store ref_broadcast name hops r = r\<lparr>broadcast := (broadcast r)(name \<mapsto> hops)\<rparr>"
| "store ref_broadcastAll name hops r = r\<lparr>broadcastAll := (broadcastAll r)(name \<mapsto> hops)\<rparr>"

text \<open>The variables the function literal of \<^verbatim>\<open>lookupOrCalculate\<close> captures. Its channel
  \<^verbatim>\<open>res\<close> is private to one call, so the channel is not named.\<close>

record closure =
  c_name :: PeerName
  c_broadcast :: broadcastRef
  c_establishedAndSymmetric :: bool

definition action_func :: "Topology \<Rightarrow> closure \<Rightarrow> Routes \<Rightarrow> Routes \<times> event list" where
  "action_func T c r =
     (case deref (c_broadcast c) r (c_name c) of
        Some hops \<Rightarrow> (r, [RLock routes_mu, RUnlock routes_mu, Send_res hops])
      | None \<Rightarrow>
          (let hops = calculateBroadcast T r (c_name c) (c_establishedAndSymmetric c)
           in (store (c_broadcast c) (c_name c) hops r,
               [RLock routes_mu, RUnlock routes_mu,
                RLock peers_mu, RLock ourself_mu,
                Call_calculateBroadcast (c_name c) (c_establishedAndSymmetric c),
                RUnlock ourself_mu, RUnlock peers_mu,
                Send_res hops,
                Lock routes_mu, Store (c_broadcast c) (c_name c) hops, Unlock routes_mu])))"

text \<open>\<^verbatim>\<open><-res\<close>: the caller receives the first value sent on its channel, and waits for
  ever (\<open>None\<close>) when nothing is sent.\<close>

fun recv_res :: "event list \<Rightarrow> PeerName list option" where
  "recv_res [] = None"
| "recv_res (Send_res hops # tr) = Some hops"
| "recv_res (e # tr) = recv_res tr"

text \<open>On a miss the caller hands the function literal to the run loop, which calls it, and
  returns what arrives on \<^verbatim>\<open>res\<close>. The result is the returned list, the state and the
  events of the call.\<close>

definition lookupOrCalculate ::
  "Topology \<Rightarrow> PeerName \<Rightarrow> broadcastRef \<Rightarrow> bool \<Rightarrow> Routes
     \<Rightarrow> (PeerName list \<times> Routes \<times> event list) option" where
  "lookupOrCalculate T name b establishedAndSymmetric r =
     (case deref b r name of
        Some hops \<Rightarrow> Some (hops, r, [RLock routes_mu, RUnlock routes_mu])
      | None \<Rightarrow>
          (case action_func T \<lparr>c_name = name, c_broadcast = b,
                               c_establishedAndSymmetric = establishedAndSymmetric\<rparr> r of
             (r', tr) \<Rightarrow>
               (case recv_res tr of
                  None \<Rightarrow> None
                | Some hops \<Rightarrow> Some (hops, r', [RLock routes_mu, RUnlock routes_mu] @ tr))))"

definition Broadcast ::
  "Topology \<Rightarrow> PeerName \<Rightarrow> Routes \<Rightarrow> (PeerName list \<times> Routes \<times> event list) option" where
  "Broadcast T name r = lookupOrCalculate T name ref_broadcast True r"

definition BroadcastAll ::
  "Topology \<Rightarrow> PeerName \<Rightarrow> Routes \<Rightarrow> (PeerName list \<times> Routes \<times> event list) option" where
  "BroadcastAll T name r = lookupOrCalculate T name ref_broadcastAll False r"

section \<open>The serializer\<close>

definition Recalculate :: "Routes \<Rightarrow> Routes" where
  \<comment> \<open>the non-blocking send: \<^verbatim>\<open>default\<close> is taken when the buffer is full\<close>
  "Recalculate r =
     (case recalculate r of None \<Rightarrow> r\<lparr>recalculate := Some nil\<rparr> | Some s \<Rightarrow> r)"

text \<open>What one \<^verbatim>\<open>select\<close> of \<^verbatim>\<open>run\<close> receives.\<close>

datatype request = recv_recalculate | recv_wait | recv_action closure

text \<open>One iteration of the loop of \<^verbatim>\<open>run\<close>. The case \<^verbatim>\<open><-recalculate\<close> is not ready while
  the buffer is empty: \<open>None\<close>.\<close>

fun run_select :: "Topology \<Rightarrow> request \<Rightarrow> Routes \<Rightarrow> (Routes \<times> event list) option" where
  "run_select T recv_recalculate r =
     (case recalculate r of
        None \<Rightarrow> None
      | Some s \<Rightarrow> Some (calculate T (r\<lparr>recalculate := None\<rparr>)))"
| "run_select T recv_wait r =
     (case recalculate r of
        None \<Rightarrow> Some (r, [Close_done])
      | Some s \<Rightarrow>
          (case calculate T (r\<lparr>recalculate := None\<rparr>) of
             (r', tr) \<Rightarrow> Some (r', tr @ [Close_done])))"
| "run_select T (recv_action c) r = Some (action_func T c r)"

text \<open>\<^verbatim>\<open>EnsureRecalculated\<close> sends \<^verbatim>\<open>done\<close> on \<^verbatim>\<open>wait\<close> and returns when the loop has closed
  it: the caller's view of the iteration that receives from \<^verbatim>\<open>wait\<close>.\<close>

definition EnsureRecalculated :: "Topology \<Rightarrow> Routes \<Rightarrow> (Routes \<times> event list) option" where
  "EnsureRecalculated T r = run_select T recv_wait r"

text \<open>
  The run loop runs for ever beside its callers. A finite stretch of the system is a
  list of steps: an iteration of the loop under the topology of that moment, or a call
  that does not wait for the loop. The two calls that wait, \<^verbatim>\<open>EnsureRecalculated\<close> and a
  \<^verbatim>\<open>Broadcast\<close> that missed, are the iterations that receive from \<^verbatim>\<open>wait\<close> and from
  \<^verbatim>\<open>action\<close>: both channels are unbuffered, so the send and the receive are one event.

  Taking an iteration as one step loses nothing. The four tables are written by the loop
  alone; a caller writes the signal buffer (\<^verbatim>\<open>Recalculate\<close>) or the list of callbacks
  (\<^verbatim>\<open>OnChange\<close>). An iteration reads the buffer once, at its start, and the list of
  callbacks once, inside the critical section of \<^verbatim>\<open>calculate\<close>, so a call that falls
  inside an iteration has the effect of the same call just before or just after it.
\<close>

datatype step = loop Topology request | call_Recalculate | call_OnChange callback

fun exec_step :: "step \<Rightarrow> Routes \<Rightarrow> (Routes \<times> event list) option" where
  "exec_step (loop T q) r = run_select T q r"
| "exec_step call_Recalculate r = Some (Recalculate r, [])"
| "exec_step (call_OnChange cb) r = Some (OnChange cb r, [Lock routes_mu, Unlock routes_mu])"

fun exec :: "step list \<Rightarrow> Routes \<Rightarrow> (Routes \<times> event list) option" where
  "exec [] r = Some (r, [])"
| "exec (s # ss) r =
     (case exec_step s r of
        None \<Rightarrow> None
      | Some (r', tr) \<Rightarrow>
          (case exec ss r' of
             None \<Rightarrow> None
           | Some (r'', tr') \<Rightarrow> Some (r'', tr @ tr')))"

section \<open>The neighbour sampler\<close>

text \<open>
  \<^verbatim>\<open>int(math.Log2(float64(n)))\<close> for the length \<open>n\<close> of a map. \<^verbatim>\<open>math.Log2\<close> is exact at the
  powers of two, and at any other length a map can have its result lies strictly between
  two integers by far more than the rounding error, so the conversion truncates to the
  integer logarithm, \<open>floorlog 2 n - 1\<close>. At \<open>n = 0\<close> the logarithm is minus infinity,
  which the conversion turns into the least 64-bit integer on amd64 and arm64.
\<close>

definition Log2_int :: "nat \<Rightarrow> int" where
  "Log2_int n = (if n = 0 then - (2 ^ 63) else int (floorlog 2 n) - 1)"

text \<open>The first loop of \<^verbatim>\<open>RandomNeighbours\<close> over the values of \<^verbatim>\<open>unicastAll\<close>, in the
  order in which \<^verbatim>\<open>range\<close> yields them; \<^verbatim>\<open>destinations\<close> is a set of names.\<close>

fun destinations_loop :: "int \<Rightarrow> PeerName \<Rightarrow> PeerName list \<Rightarrow> PeerName set \<Rightarrow> PeerName set" where
  "destinations_loop count except [] destinations = destinations"
| "destinations_loop count except (dst # rest) destinations =
     (if dst \<noteq> UnknownPeerName \<and> dst \<noteq> except
      then (if count \<le> int (card (insert dst destinations))
            then insert dst destinations
            else destinations_loop count except rest (insert dst destinations))
      else destinations_loop count except rest destinations)"

text \<open>Go leaves the order of a \<^verbatim>\<open>range\<close> over a map open: any list of the entries, each
  key once, is an order in which the entries may come.\<close>

definition range_map :: "('k \<rightharpoonup> 'v) \<Rightarrow> ('k \<times> 'v) list \<Rightarrow> bool" where
  "range_map m es \<longleftrightarrow> distinct (map fst es) \<and> map_of es = m"

definition range_set :: "'k set \<Rightarrow> 'k list \<Rightarrow> bool" where
  "range_set S ks \<longleftrightarrow> distinct ks \<and> set ks = S"

text \<open>\<open>RandomNeighbours r except es res\<close>: the call \<^verbatim>\<open>RandomNeighbours(except)\<close> in the
  state \<open>r\<close> returns \<open>res\<close> when its first \<^verbatim>\<open>range\<close> yields the entries in the order \<open>es\<close>;
  \<open>res\<close> is filled by the second \<^verbatim>\<open>range\<close>, over \<^verbatim>\<open>destinations\<close>.\<close>

definition RandomNeighbours ::
  "Routes \<Rightarrow> PeerName \<Rightarrow> (PeerName \<times> PeerName) list \<Rightarrow> PeerName list \<Rightarrow> bool" where
  "RandomNeighbours r except es res \<longleftrightarrow>
     range_map (unicastAll r) es \<and>
     range_set (destinations_loop (Log2_int (card (dom (unicastAll r)))) except (map snd es) {}) res"

section \<open>Reachability over the connections, from the spec\<close>

text \<open>
  \<^verbatim>\<open>Peer.Routes\<close> is a method that routes.go calls and does not define. The spec
  describes the topology as peers with directional connections between them and a
  connection-quality filter. A connection is written \<open>(a, b, established)\<close>: peer \<open>a\<close>
  holds a connection to peer \<open>b\<close>.
\<close>

type_synonym Connections = "(PeerName \<times> PeerName \<times> bool) list"

definition qualifies :: "Connections \<Rightarrow> bool \<Rightarrow> PeerName \<Rightarrow> PeerName \<Rightarrow> bool" where
  \<comment> \<open>Modelled from the spec: the connection-quality filter of \<^verbatim>\<open>Peer.Routes\<close>. Under the
      filter a connection counts when it is established and symmetric, "mutually
      confirmed by both endpoints"; without the filter "all known connections regardless
      of symmetry/establishment state" count.\<close>
  "qualifies cs establishedAndSymmetric a b \<longleftrightarrow>
     (if establishedAndSymmetric
      then (a, b, True) \<in> set cs \<and> (b, a, True) \<in> set cs
      else (a, b, True) \<in> set cs \<or> (a, b, False) \<in> set cs)"

text \<open>The peers reachable from a set of peers: one pass over the connections adds the
  end of every qualifying connection that starts at a peer already reached, and as many
  passes as there are connections reach every reachable peer (\<open>reachable_closure\<close>
  below).\<close>

fun reach_pass :: "Connections \<Rightarrow> bool \<Rightarrow> Connections \<Rightarrow> PeerName set \<Rightarrow> PeerName set" where
  "reach_pass cs eas [] S = S"
| "reach_pass cs eas ((a, b, e) # rest) S =
     reach_pass cs eas rest (if a \<in> S \<and> qualifies cs eas a b then insert b S else S)"

fun reach :: "nat \<Rightarrow> Connections \<Rightarrow> bool \<Rightarrow> PeerName set \<Rightarrow> PeerName set" where
  "reach 0 cs eas S = S"
| "reach (Suc n) cs eas S = reach n cs eas (reach_pass cs eas cs S)"

definition reachable :: "Connections \<Rightarrow> bool \<Rightarrow> PeerName \<Rightarrow> PeerName set" where
  \<comment> \<open>Modelled from the spec: the "reachability set: the set of peers reachable from a
      given source under a connection-quality filter".\<close>
  "reachable cs eas src = reach (length cs) cs eas {src}"

definition unicast_complete :: "Connections \<Rightarrow> Topology \<Rightarrow> Peer \<Rightarrow> bool" where
  \<comment> \<open>Modelled from the spec: \<^verbatim>\<open>Peer.Routes\<close> is not in routes.go. Called for a peer with
      no stop peer, as \<^verbatim>\<open>calculateUnicast\<close> calls it, it returns "the local peer's complete
      next-hop table [...] producing a direct next hop (not a path) for every reachable
      destination": the table has an entry for exactly the peers reachable from that
      peer, under each filter. What it returns when it is given a stop peer is not
      constrained.\<close>
  "unicast_complete cs T p \<longleftrightarrow>
     dom (snd (Peer_Routes T p None True)) = reachable cs True (Name p) \<and>
     dom (snd (Peer_Routes T p None False)) = reachable cs False (Name p)"

text \<open>The qualifying connections as a relation, and the sets of peers they do not lead out
  of.\<close>

definition links :: "Connections \<Rightarrow> bool \<Rightarrow> (PeerName \<times> PeerName) set" where
  "links cs eas = {(a, b). qualifies cs eas a b}"

definition closed_under :: "Connections \<Rightarrow> bool \<Rightarrow> PeerName set \<Rightarrow> bool" where
  "closed_under cs eas S \<longleftrightarrow> (\<forall>a b. a \<in> S \<and> qualifies cs eas a b \<longrightarrow> b \<in> S)"

text \<open>The map \<^verbatim>\<open>reached\<close> that \<^verbatim>\<open>calculateBroadcast\<close> hands to \<^verbatim>\<open>ForEachConnectedPeer\<close>, when
  the named peer is known and the local peer is found from it.\<close>

definition reached_for :: "Topology \<Rightarrow> Routes \<Rightarrow> PeerName \<Rightarrow> bool \<Rightarrow> unicastRoutes option" where
  "reached_for T r name establishedAndSymmetric =
     (case byName T (peers r) name of
        None \<Rightarrow> None
      | Some peer \<Rightarrow>
          (case Peer_Routes T peer (Some (ourself r)) establishedAndSymmetric of
             (found, reached) \<Rightarrow> if found then Some reached else None))"

section \<open>Reading a trace\<close>

fun callbacks_of :: "event list \<Rightarrow> callback list" where
  "callbacks_of [] = []"
| "callbacks_of (Call_callback cb # tr) = cb # callbacks_of tr"
| "callbacks_of (e # tr) = callbacks_of tr"

fun derivations_of :: "event list \<Rightarrow> (PeerName \<times> bool) list" where
  "derivations_of [] = []"
| "derivations_of (Call_calculateBroadcast name eas # tr) = (name, eas) # derivations_of tr"
| "derivations_of (e # tr) = derivations_of tr"

fun recalculations :: "event list \<Rightarrow> nat" where
  "recalculations [] = 0"
| "recalculations (Call_calculate # tr) = Suc (recalculations tr)"
| "recalculations (e # tr) = recalculations tr"

fun writes_of :: "event list \<Rightarrow> event list" where
  "writes_of [] = []"
| "writes_of (Assign f # tr) = Assign f # writes_of tr"
| "writes_of (Store b name hops # tr) = Store b name hops # writes_of tr"
| "writes_of (e # tr) = writes_of tr"

text \<open>The mutexes held after a trace, each as often as it was acquired and not released.\<close>

fun track :: "mutex list \<Rightarrow> event \<Rightarrow> mutex list" where
  "track hs (RLock m) = m # hs"
| "track hs (Lock m) = m # hs"
| "track hs (RUnlock m) = remove1 m hs"
| "track hs (Unlock m) = remove1 m hs"
| "track hs e = hs"

definition held :: "event list \<Rightarrow> mutex list" where
  "held tr = foldl track [] tr"

section \<open>Notions the statements use\<close>

text \<open>\<^verbatim>\<open>Broadcast\<close> pairs the table \<^verbatim>\<open>broadcast\<close> with the filter \<^verbatim>\<open>true\<close>, and
  \<^verbatim>\<open>BroadcastAll\<close> pairs \<^verbatim>\<open>broadcastAll\<close> with \<^verbatim>\<open>false\<close>; no other function literal is ever
  sent on \<^verbatim>\<open>action\<close>.\<close>

fun ref_of :: "bool \<Rightarrow> broadcastRef" where
  "ref_of True = ref_broadcast"
| "ref_of False = ref_broadcastAll"

definition api_closure :: "closure \<Rightarrow> bool" where
  "api_closure c \<longleftrightarrow> c_broadcast c = ref_of (c_establishedAndSymmetric c)"

fun api_step :: "step \<Rightarrow> bool" where
  "api_step (loop T (recv_action c)) = api_closure c"
| "api_step s = True"

definition self_route :: "Topology \<Rightarrow> Peer \<Rightarrow> bool" where
  \<comment> \<open>Modelled from the spec: \<^verbatim>\<open>Peer.Routes\<close> is not in routes.go. Section 3 of the spec
      says of the next-hop table it returns: "Always contains an entry for the local
      peer mapped to the sentinel", under both filters.\<close>
  "self_route T p \<longleftrightarrow>
     snd (Peer_Routes T p None True) (Name p) = Some UnknownPeerName \<and>
     snd (Peer_Routes T p None False) (Name p) = Some UnknownPeerName"

fun step_self_route :: "Peer \<Rightarrow> step \<Rightarrow> bool" where
  "step_self_route p (loop T q) = self_route T p"
| "step_self_route p s = True"

text \<open>The two halves of the self-entry invariant, as predicates of a state.\<close>

definition seeded :: "Peer \<Rightarrow> Routes \<Rightarrow> bool" where
  "seeded p r \<longleftrightarrow>
     ourself r = p \<and> broadcast r (Name p) \<noteq> None \<and> broadcastAll r (Name p) \<noteq> None"

definition self_routed :: "Peer \<Rightarrow> Routes \<Rightarrow> bool" where
  "self_routed p r \<longleftrightarrow>
     unicast r (Name p) = Some UnknownPeerName \<and> unicastAll r (Name p) = Some UnknownPeerName"

section \<open>Topologies for the closed evaluations\<close>

text \<open>The local peer 1 between the peers 2 and 3: a broadcast of peer 3 is passed on to
  peer 2, one of peer 2 to peer 3, and the local peer's own to both.\<close>

definition topo_star :: Topology where
  "topo_star =
     \<lparr> byName = (\<lambda>ps. [1 \<mapsto> Peer 1, 2 \<mapsto> Peer 2, 3 \<mapsto> Peer 3]),
       Peer_Routes = (\<lambda>p stopAt eas.
          if Name p = 1
          then (if stopAt = Some (Peer 1) then (True, [1 \<mapsto> UnknownPeerName])
                else (False, [1 \<mapsto> UnknownPeerName, 2 \<mapsto> 2, 3 \<mapsto> 3]))
          else (stopAt = Some (Peer 1), [Name p \<mapsto> UnknownPeerName, 1 \<mapsto> 1])),
       ForEachConnectedPeer = (\<lambda>lp eas exclude.
          filter (\<lambda>q. exclude (Name q) = None) [Peer 2, Peer 3]) \<rparr>"

text \<open>The same after peer 3 has left.\<close>

definition topo_pair :: Topology where
  "topo_pair =
     \<lparr> byName = (\<lambda>ps. [1 \<mapsto> Peer 1, 2 \<mapsto> Peer 2]),
       Peer_Routes = (\<lambda>p stopAt eas.
          if Name p = 1
          then (if stopAt = Some (Peer 1) then (True, [1 \<mapsto> UnknownPeerName])
                else (False, [1 \<mapsto> UnknownPeerName, 2 \<mapsto> 2]))
          else (stopAt = Some (Peer 1), [Name p \<mapsto> UnknownPeerName, 1 \<mapsto> 1])),
       ForEachConnectedPeer = (\<lambda>lp eas exclude.
          filter (\<lambda>q. exclude (Name q) = None) [Peer 2]) \<rparr>"

text \<open>
  Five peers, the local peer 1 among them. The connections 1-2, 2-3 and 3-4 are
  established in both directions; the connections 1-4 and 1-5 are known to both ends and
  established at neither. The tables are what \<^verbatim>\<open>Peer.Routes\<close> returns on this topology
  when it is given no stop peer or the local peer, the only stop peer that routes.go
  passes: a breadth-first widening from the source that takes the peers of one distance
  in the order of their names and returns as soon as it takes the stop peer.
\<close>

definition detour_connections :: Connections where
  "detour_connections =
     [(1, 2, True), (2, 1, True), (2, 3, True), (3, 2, True), (3, 4, True), (4, 3, True),
      (1, 4, False), (4, 1, False), (1, 5, False), (5, 1, False)]"

definition detour_Routes :: "Peer \<Rightarrow> Peer option \<Rightarrow> bool \<Rightarrow> bool \<times> unicastRoutes" where
  "detour_Routes p stopAt eas =
     (if stopAt = None then
        (False,
         if Name p = 1 then
           (if eas then [1 \<mapsto> UnknownPeerName, 2 \<mapsto> 2, 3 \<mapsto> 2, 4 \<mapsto> 2]
            else [1 \<mapsto> UnknownPeerName, 2 \<mapsto> 2, 3 \<mapsto> 2, 4 \<mapsto> 4, 5 \<mapsto> 5])
         else if Name p = 2 then
           (if eas then [2 \<mapsto> UnknownPeerName, 1 \<mapsto> 1, 3 \<mapsto> 3, 4 \<mapsto> 3]
            else [2 \<mapsto> UnknownPeerName, 1 \<mapsto> 1, 3 \<mapsto> 3, 4 \<mapsto> 1, 5 \<mapsto> 1])
         else if Name p = 3 then
           (if eas then [3 \<mapsto> UnknownPeerName, 1 \<mapsto> 2, 2 \<mapsto> 2, 4 \<mapsto> 4]
            else [3 \<mapsto> UnknownPeerName, 1 \<mapsto> 2, 2 \<mapsto> 2, 4 \<mapsto> 4, 5 \<mapsto> 2])
         else if Name p = 4 then
           (if eas then [4 \<mapsto> UnknownPeerName, 1 \<mapsto> 3, 2 \<mapsto> 3, 3 \<mapsto> 3]
            else [4 \<mapsto> UnknownPeerName, 1 \<mapsto> 1, 2 \<mapsto> 1, 3 \<mapsto> 3, 5 \<mapsto> 1])
         else if Name p = 5 then
           (if eas then [5 \<mapsto> UnknownPeerName]
            else [5 \<mapsto> UnknownPeerName, 1 \<mapsto> 1, 2 \<mapsto> 1, 3 \<mapsto> 1, 4 \<mapsto> 1])
         else [Name p \<mapsto> UnknownPeerName])
      else if stopAt = Some (Peer 1) then
        (if Name p = 1 then (True, [1 \<mapsto> UnknownPeerName])
         else if Name p = 2 then (True, [2 \<mapsto> UnknownPeerName, 1 \<mapsto> 1, 3 \<mapsto> 3])
         else if Name p = 3 then (True, [3 \<mapsto> UnknownPeerName, 1 \<mapsto> 2, 2 \<mapsto> 2, 4 \<mapsto> 4])
         else if Name p = 4 then
           (if eas then (True, [4 \<mapsto> UnknownPeerName, 1 \<mapsto> 3, 2 \<mapsto> 3, 3 \<mapsto> 3])
            else (True, [4 \<mapsto> UnknownPeerName, 1 \<mapsto> 1, 3 \<mapsto> 3]))
         else if Name p = 5 then
           (if eas then (False, [5 \<mapsto> UnknownPeerName])
            else (True, [5 \<mapsto> UnknownPeerName, 1 \<mapsto> 1]))
         else (False, [Name p \<mapsto> UnknownPeerName]))
      else (False, [Name p \<mapsto> UnknownPeerName]))"

definition topo_detour :: Topology where
  "topo_detour =
     \<lparr> byName = (\<lambda>ps. [1 \<mapsto> Peer 1, 2 \<mapsto> Peer 2, 3 \<mapsto> Peer 3, 4 \<mapsto> Peer 4, 5 \<mapsto> Peer 5]),
       Peer_Routes = detour_Routes,
       ForEachConnectedPeer = (\<lambda>lp eas exclude.
          filter (\<lambda>q. exclude (Name q) = None)
            (if eas then [Peer 2] else [Peer 2, Peer 4, Peer 5])) \<rparr>"

section \<open>Traces\<close>

lemma callbacks_of_append: "callbacks_of (xs @ ys) = callbacks_of xs @ callbacks_of ys"
  by (induction xs rule: callbacks_of.induct) simp_all

lemma callbacks_of_map: "callbacks_of (map Call_callback cbs) = cbs"
  by (induction cbs) simp_all

lemma recalculations_append: "recalculations (xs @ ys) = recalculations xs + recalculations ys"
  by (induction xs rule: recalculations.induct) simp_all

lemma recalculations_callbacks: "recalculations (map Call_callback cbs) = 0"
  by (induction cbs) simp_all

lemma derivations_of_append: "derivations_of (xs @ ys) = derivations_of xs @ derivations_of ys"
  by (induction xs rule: derivations_of.induct) simp_all

section \<open>A full recalculation\<close>

lemma calculate_callbacks: "callbacks_of (snd (calculate T r)) = onChange r"
  by (simp add: calculate_def callbacks_of_map)

lemma calculate_recalculations: "recalculations (snd (calculate T r)) = 1"
  by (simp add: calculate_def recalculations_callbacks)

lemma calculate_no_close: "Close_done \<notin> set (snd (calculate T r))"
  by (auto simp: calculate_def)

lemma calculate_frame_fields:
  "onChange (fst (calculate T r)) = onChange r"
  "ourself (fst (calculate T r)) = ourself r"
  "peers (fst (calculate T r)) = peers r"
  "recalculate (fst (calculate T r)) = recalculate r"
  by (simp_all add: calculate_def)

lemma onChange_register:
  "onChange (foldl (\<lambda>r cb. OnChange cb r) r cbs) = onChange r @ cbs"
  by (induction cbs arbitrary: r) (simp_all add: OnChange_def)

lemma action_func_callbacks: "callbacks_of (snd (action_func T c r)) = []"
  by (simp add: action_func_def Let_def split: option.split)

lemma action_func_onChange: "onChange (fst (action_func T c r)) = onChange r"
  by (cases "c_broadcast c") (simp_all add: action_func_def Let_def split: option.split)

text \<open>
  C6. A full recalculation replaces the four tables by the freshly derived ones: the two
  unicast tables are what \<^verbatim>\<open>calculateUnicast\<close> returns under each filter, and each new
  broadcast table holds the local peer's entry and nothing else, so every lazily cached
  entry is gone. The four assignments are the only writes of the call and lie in one
  critical section of the routes mutex; the registered callbacks are called after it, in
  registration order, with no mutex held. The function literal of the lazy fill calls
  no callback and leaves the list of callbacks alone, and so does a whole
  \<^verbatim>\<open>lookupOrCalculate\<close> call.
\<close>

theorem calculate_replaces_then_notifies:
  "\<exists>pre. calculate T r =
           (r\<lparr>unicast := calculateUnicast T r True,
              unicastAll := calculateUnicast T r False,
              broadcast := [Name (ourself r) \<mapsto> calculateBroadcast T r (Name (ourself r)) True],
              broadcastAll := [Name (ourself r) \<mapsto> calculateBroadcast T r (Name (ourself r)) False]\<rparr>,
            pre @ [Lock routes_mu,
                   Assign f_unicast, Assign f_unicastAll, Assign f_broadcast, Assign f_broadcastAll,
                   Unlock routes_mu]
                @ map Call_callback (onChange r))
        \<and> writes_of pre = [] \<and> callbacks_of pre = []
        \<and> held (pre @ [Lock routes_mu,
                   Assign f_unicast, Assign f_unicastAll, Assign f_broadcast, Assign f_broadcastAll,
                   Unlock routes_mu]) = []
        \<and> dom (broadcast (fst (calculate T r))) = {Name (ourself r)}
        \<and> dom (broadcastAll (fst (calculate T r))) = {Name (ourself r)}
        \<and> callbacks_of (snd (action_func T c r)) = []
        \<and> onChange (fst (action_func T c r)) = onChange r
        \<and> (\<forall>hops r' tr. lookupOrCalculate T name b eas r = Some (hops, r', tr)
              \<longrightarrow> callbacks_of tr = [] \<and> onChange r' = onChange r)"
proof -
  define pre where "pre = [Call_calculate, RLock peers_mu, RLock ourself_mu,
      Call_calculateUnicast True, Call_calculateUnicast False,
      Call_calculateBroadcast (Name (ourself r)) True,
      Call_calculateBroadcast (Name (ourself r)) False,
      RUnlock ourself_mu, RUnlock peers_mu]"
  let ?section = "[Lock routes_mu,
      Assign f_unicast, Assign f_unicastAll, Assign f_broadcast, Assign f_broadcastAll,
      Unlock routes_mu]"
  have whole: "calculate T r =
           (r\<lparr>unicast := calculateUnicast T r True,
              unicastAll := calculateUnicast T r False,
              broadcast := [Name (ourself r) \<mapsto> calculateBroadcast T r (Name (ourself r)) True],
              broadcastAll := [Name (ourself r) \<mapsto> calculateBroadcast T r (Name (ourself r)) False]\<rparr>,
            pre @ ?section @ map Call_callback (onChange r))"
    by (simp add: calculate_def pre_def)
  have quiet: "writes_of pre = []" "callbacks_of pre = []"
    by (simp_all add: pre_def)
  have free: "held (pre @ ?section) = []"
    by (simp add: pre_def held_def)
  have seeded: "dom (broadcast (fst (calculate T r))) = {Name (ourself r)}"
    "dom (broadcastAll (fst (calculate T r))) = {Name (ourself r)}"
    by (simp_all add: calculate_def)
  have lazy: "callbacks_of tr = [] \<and> onChange r' = onChange r"
    if "lookupOrCalculate T name b eas r = Some (hops, r', tr)" for hops r' tr
  proof (cases "deref b r name")
    case None
    let ?c = "\<lparr>c_name = name, c_broadcast = b, c_establishedAndSymmetric = eas\<rparr>"
    from that None have "r' = fst (action_func T ?c r)"
      and "tr = [RLock routes_mu, RUnlock routes_mu] @ snd (action_func T ?c r)"
      by (auto simp: lookupOrCalculate_def split: prod.splits option.splits)
    then show ?thesis
      by (simp add: action_func_callbacks action_func_onChange)
  next
    case (Some cached)
    with that show ?thesis
      by (auto simp: lookupOrCalculate_def)
  qed
  from whole quiet free seeded lazy show ?thesis
    using action_func_callbacks action_func_onChange by blast
qed

text \<open>
  C9. A full recalculation changes no field of the state but the four tables: the list of
  callbacks, the local-peer handle, the peers handle and the signal buffer are the same
  afterwards. The callbacks it calls are the registered ones in their order, so after
  callbacks are registered through \<^verbatim>\<open>OnChange\<close> the next recalculation calls the earlier
  ones and then these, in the order of registration.
\<close>

theorem calculate_frame:
  "calculate T r = (r', tr) \<Longrightarrow>
     r' = r\<lparr>unicast := unicast r', unicastAll := unicastAll r',
            broadcast := broadcast r', broadcastAll := broadcastAll r'\<rparr>
     \<and> onChange r' = onChange r \<and> ourself r' = ourself r \<and> peers r' = peers r
     \<and> recalculate r' = recalculate r
     \<and> callbacks_of tr = onChange r
     \<and> callbacks_of (snd (calculate T (foldl (\<lambda>r cb. OnChange cb r) r cbs))) = onChange r @ cbs"
proof -
  assume c: "calculate T r = (r', tr)"
  have r': "r' = fst (calculate T r)" and tr: "tr = snd (calculate T r)"
    using c by simp_all
  have "r' = r\<lparr>unicast := unicast r', unicastAll := unicastAll r',
            broadcast := broadcast r', broadcastAll := broadcastAll r'\<rparr>"
    unfolding r' by (simp add: calculate_def)
  moreover have "callbacks_of tr = onChange r"
    unfolding tr by (rule calculate_callbacks)
  moreover have "callbacks_of (snd (calculate T (foldl (\<lambda>r cb. OnChange cb r) r cbs))) = onChange r @ cbs"
    by (simp add: calculate_callbacks onChange_register)
  ultimately show ?thesis
    unfolding r' by (simp add: calculate_frame_fields)
qed

section \<open>The lazy fill\<close>

lemma deref_store_same: "deref b (store b name hops r) name = Some hops"
  by (cases b) simp_all

lemma deref_store_keeps:
  "deref b r n = Some S \<Longrightarrow> deref b' r n' = None \<Longrightarrow> deref b (store b' n' hops r) n = Some S"
  by (cases b; cases b') auto

text \<open>
  C10. On a miss the function literal sends on \<^verbatim>\<open>res\<close> the list that \<^verbatim>\<open>calculateBroadcast\<close>
  returned and then stores that same list under the name: nothing is sent and nothing is
  written before the send, nothing is written between the send and the store. The caller
  returns the list sent, the table holds it afterwards, and a later call returns it from
  the table.
\<close>

theorem lazy_fill_caches_what_it_sent:
  assumes miss: "deref b r name = None"
  shows "\<exists>hops r' pre mid post.
           action_func T \<lparr>c_name = name, c_broadcast = b, c_establishedAndSymmetric = eas\<rparr> r
             = (r', pre @ [Send_res hops] @ mid @ [Store b name hops] @ post)
         \<and> recv_res pre = None \<and> writes_of (pre @ [Send_res hops] @ mid) = []
         \<and> hops = calculateBroadcast T r name eas
         \<and> lookupOrCalculate T name b eas r
             = Some (hops, r', [RLock routes_mu, RUnlock routes_mu]
                               @ pre @ [Send_res hops] @ mid @ [Store b name hops] @ post)
         \<and> deref b r' name = Some hops
         \<and> lookupOrCalculate T' name b eas' r' = Some (hops, r', [RLock routes_mu, RUnlock routes_mu])"
proof -
  define hops where "hops = calculateBroadcast T r name eas"
  define r' where "r' = store b name hops r"
  define pre where "pre = [RLock routes_mu, RUnlock routes_mu, RLock peers_mu, RLock ourself_mu,
       Call_calculateBroadcast name eas, RUnlock ourself_mu, RUnlock peers_mu]"
  define mid where "mid = [Lock routes_mu]"
  define post where "post = [Unlock routes_mu]"
  have act: "action_func T \<lparr>c_name = name, c_broadcast = b, c_establishedAndSymmetric = eas\<rparr> r
             = (r', pre @ [Send_res hops] @ mid @ [Store b name hops] @ post)"
    using miss by (simp add: action_func_def Let_def hops_def r'_def pre_def mid_def post_def)
  have quiet: "recv_res pre = None" "writes_of (pre @ [Send_res hops] @ mid) = []"
    by (simp_all add: pre_def mid_def)
  have got: "recv_res (pre @ [Send_res hops] @ mid @ [Store b name hops] @ post) = Some hops"
    by (simp add: pre_def)
  have first: "lookupOrCalculate T name b eas r
             = Some (hops, r', [RLock routes_mu, RUnlock routes_mu]
                               @ pre @ [Send_res hops] @ mid @ [Store b name hops] @ post)"
    using miss got by (simp add: lookupOrCalculate_def act)
  have cached: "deref b r' name = Some hops"
    unfolding r'_def by (rule deref_store_same)
  have later: "lookupOrCalculate T' name b eas' r' = Some (hops, r', [RLock routes_mu, RUnlock routes_mu])"
    using cached by (simp add: lookupOrCalculate_def)
  from act quiet first cached later hops_def show ?thesis by blast
qed

section \<open>Signals and the barrier\<close>

lemma signal_nil: "(s::signal) = nil"
  by (cases s) simp

lemma Recalculate_pending: "recalculate (Recalculate r) = Some nil"
  by (cases "recalculate r") (simp_all add: Recalculate_def signal_nil)

lemma Recalculate_idem: "Recalculate (Recalculate r) = Recalculate r"
  by (cases "recalculate r") (simp_all add: Recalculate_def)

lemma Recalculate_funpow: "1 \<le> N \<Longrightarrow> (Recalculate ^^ N) r = Recalculate r"
proof (induction N)
  case 0
  then show ?case by simp
next
  case (Suc N)
  show ?case
  proof (cases "N = 0")
    case True
    then show ?thesis by simp
  next
    case False
    with Suc.IH have "(Recalculate ^^ N) r = Recalculate r" by simp
    then show ?thesis by (simp add: Recalculate_idem)
  qed
qed

lemma Recalculate_drained:
  "Recalculate r\<lparr>recalculate := x\<rparr> = r\<lparr>recalculate := x\<rparr>"
  by (cases "recalculate r") (simp_all add: Recalculate_def)

text \<open>
  C3, as amended. Let \<open>N \<ge> 1\<close> calls of \<^verbatim>\<open>Recalculate\<close> follow each other with no
  iteration of the run loop between them. They leave the state that one call leaves: a
  call that finds a signal in the buffer changes nothing. When \<^verbatim>\<open>EnsureRecalculated\<close>
  follows, the loop recalculates once, calls the registered callbacks, and closes \<^verbatim>\<open>done\<close>
  as the last event, after which the buffer is empty. When the loop receives the signal
  before it receives from \<^verbatim>\<open>wait\<close>, it recalculates once then, and the barrier that
  follows closes \<^verbatim>\<open>done\<close> with no further recalculation.
\<close>

theorem burst_recalculates_once_before_done:
  assumes "1 \<le> N"
  shows "(Recalculate ^^ N) r = Recalculate r
       \<and> (\<exists>r' tr. EnsureRecalculated T ((Recalculate ^^ N) r) = Some (r', tr @ [Close_done])
            \<and> (r', tr) = calculate T (r\<lparr>recalculate := None\<rparr>)
            \<and> recalculations tr = 1 \<and> callbacks_of tr = onChange r
            \<and> Close_done \<notin> set tr \<and> recalculate r' = None)
       \<and> (\<exists>r' tr. run_select T recv_recalculate ((Recalculate ^^ N) r) = Some (r', tr)
            \<and> recalculations tr = 1
            \<and> EnsureRecalculated T' r' = Some (r', [Close_done]))"
proof -
  have burst: "(Recalculate ^^ N) r = Recalculate r"
    using assms by (rule Recalculate_funpow)
  define r0 where "r0 = r\<lparr>recalculate := None\<rparr>"
  obtain r' tr where c: "calculate T r0 = (r', tr)"
    by (cases "calculate T r0")
  have r': "r' = fst (calculate T r0)" and tr: "tr = snd (calculate T r0)"
    using c by simp_all
  have drained: "(Recalculate r)\<lparr>recalculate := None\<rparr> = r0"
    unfolding r0_def by (rule Recalculate_drained)
  have barrier: "EnsureRecalculated T (Recalculate r) = Some (r', tr @ [Close_done])"
    by (simp add: EnsureRecalculated_def Recalculate_pending drained c)
  have served: "run_select T recv_recalculate (Recalculate r) = Some (r', tr)"
    by (simp add: Recalculate_pending drained c)
  have once: "recalculations tr = 1"
    unfolding tr by (rule calculate_recalculations)
  have cbs: "callbacks_of tr = onChange r"
    unfolding tr by (simp add: calculate_callbacks r0_def)
  have no_close: "Close_done \<notin> set tr"
    unfolding tr by (rule calculate_no_close)
  have empty: "recalculate r' = None"
    unfolding r' by (simp add: calculate_frame_fields r0_def)
  have idle: "EnsureRecalculated T' r' = Some (r', [Close_done])"
    using empty by (simp add: EnsureRecalculated_def)
  from barrier c once cbs no_close empty
  have "\<exists>r' tr. EnsureRecalculated T (Recalculate r) = Some (r', tr @ [Close_done])
            \<and> (r', tr) = calculate T (r\<lparr>recalculate := None\<rparr>)
            \<and> recalculations tr = 1 \<and> callbacks_of tr = onChange r
            \<and> Close_done \<notin> set tr \<and> recalculate r' = None"
    unfolding r0_def by auto
  moreover from served once idle
  have "\<exists>r' tr. run_select T recv_recalculate (Recalculate r) = Some (r', tr)
            \<and> recalculations tr = 1
            \<and> EnsureRecalculated T' r' = Some (r', [Close_done])"
    by blast
  ultimately show ?thesis
    unfolding burst by (simp add: burst)
qed

lemma Recalculate_empty: "recalculate r = None \<Longrightarrow> Recalculate r = r\<lparr>recalculate := Some nil\<rparr>"
  by (simp add: Recalculate_def)

lemma Recalculate_full: "Recalculate (r\<lparr>recalculate := Some nil\<rparr>) = r\<lparr>recalculate := Some nil\<rparr>"
  by (simp add: Recalculate_def)

lemma empty_buffer: "recalculate r = None \<Longrightarrow> r\<lparr>recalculate := None\<rparr> = r"
proof -
  assume "recalculate r = None"
  moreover have "r\<lparr>recalculate := recalculate r\<rparr> = r" by simp
  ultimately show ?thesis by simp
qed

lemma signal_received:
  "recalculate r = None \<Longrightarrow>
     run_select T recv_recalculate (r\<lparr>recalculate := Some nil\<rparr>) = Some (calculate T r)"
  by (simp add: empty_buffer)

lemma signal_drained:
  "recalculate r = None \<Longrightarrow>
     run_select T recv_wait (r\<lparr>recalculate := Some nil\<rparr>)
       = Some (fst (calculate T r), snd (calculate T r) @ [Close_done])"
  by (simp add: empty_buffer split: prod.split)

text \<open>Three calls of \<^verbatim>\<open>Recalculate\<close> with one iteration of the run loop after the first,
  then the barrier.\<close>

lemma interleaved_burst:
  assumes "recalculate r = None"
  shows "exec [call_Recalculate, loop T recv_recalculate, call_Recalculate, call_Recalculate,
               loop T recv_wait] r
     = Some (fst (calculate T (fst (calculate T r))),
             snd (calculate T r) @ snd (calculate T (fst (calculate T r))) @ [Close_done])"
proof -
  let ?r1 = "fst (calculate T r)"
  have idle: "recalculate ?r1 = None"
    using assms by (simp add: calculate_frame_fields)
  have first: "exec_step call_Recalculate r = Some (r\<lparr>recalculate := Some nil\<rparr>, [])"
    using assms by (simp add: Recalculate_empty)
  have served: "exec_step (loop T recv_recalculate) (r\<lparr>recalculate := Some nil\<rparr>)
      = Some (?r1, snd (calculate T r))"
    using assms by (simp only: exec_step.simps signal_received prod.collapse)
  have second: "exec_step call_Recalculate ?r1 = Some (?r1\<lparr>recalculate := Some nil\<rparr>, [])"
    using idle by (simp add: Recalculate_empty)
  have third: "exec_step call_Recalculate (?r1\<lparr>recalculate := Some nil\<rparr>)
      = Some (?r1\<lparr>recalculate := Some nil\<rparr>, [])"
    by (simp only: exec_step.simps Recalculate_full)
  have barrier: "exec_step (loop T recv_wait) (?r1\<lparr>recalculate := Some nil\<rparr>)
      = Some (fst (calculate T ?r1), snd (calculate T ?r1) @ [Close_done])"
    using idle by (simp only: exec_step.simps signal_drained)
  show ?thesis
    by (simp only: exec.simps first served second third barrier option.case prod.case
        append_Nil append_Nil2)
qed

text \<open>
  C3 as stated fails when the run loop takes the signal inside the burst. After the first
  of three calls of \<^verbatim>\<open>Recalculate\<close> the loop receives the signal and recalculates; the
  second call finds the buffer empty and fills it again, the third changes nothing, and
  the barrier drains the signal and recalculates a second time before it closes \<^verbatim>\<open>done\<close>.
\<close>

theorem interleaved_burst_recalculates_twice:
  "exec [call_Recalculate, loop topo_star recv_recalculate, call_Recalculate, call_Recalculate,
         loop topo_star recv_wait] (NewRoutes (Peer 1) 0)
     = Some (fst (calculate topo_star (fst (calculate topo_star (NewRoutes (Peer 1) 0)))),
             snd (calculate topo_star (NewRoutes (Peer 1) 0))
             @ snd (calculate topo_star (fst (calculate topo_star (NewRoutes (Peer 1) 0))))
             @ [Close_done])
   \<and> recalculations
        (snd (calculate topo_star (NewRoutes (Peer 1) 0))
         @ snd (calculate topo_star (fst (calculate topo_star (NewRoutes (Peer 1) 0))))
         @ [Close_done]) = 2"
proof -
  have "recalculate (NewRoutes (Peer 1) 0) = None"
    by (simp add: NewRoutes_def)
  then have "exec [call_Recalculate, loop topo_star recv_recalculate, call_Recalculate,
         call_Recalculate, loop topo_star recv_wait] (NewRoutes (Peer 1) 0)
     = Some (fst (calculate topo_star (fst (calculate topo_star (NewRoutes (Peer 1) 0)))),
             snd (calculate topo_star (NewRoutes (Peer 1) 0))
             @ snd (calculate topo_star (fst (calculate topo_star (NewRoutes (Peer 1) 0))))
             @ [Close_done])"
    by (rule interleaved_burst)
  moreover have "recalculations
        (snd (calculate topo_star (NewRoutes (Peer 1) 0))
         @ snd (calculate topo_star (fst (calculate topo_star (NewRoutes (Peer 1) 0))))
         @ [Close_done]) = 2"
    by (simp add: recalculations_append calculate_recalculations)
  ultimately show ?thesis by (rule conjI)
qed

section \<open>Stretches without a recalculation\<close>

lemma action_func_keeps:
  assumes "deref b r n = Some S"
  shows "deref b (fst (action_func T c r)) n = Some S"
proof (cases "deref (c_broadcast c) r (c_name c)")
  case None
  with assms show ?thesis
    by (simp add: action_func_def Let_def deref_store_keeps)
next
  case (Some hops)
  with assms show ?thesis
    by (simp add: action_func_def)
qed

lemma Recalculate_deref: "deref b (Recalculate r) = deref b r"
  by (cases b; cases "recalculate r") (simp_all add: Recalculate_def)

lemma OnChange_deref: "deref b (OnChange cb r) = deref b r"
  by (cases b) (simp_all add: OnChange_def)

text \<open>An iteration that receives the signal recalculates, whatever else it does.\<close>

lemma run_select_recalculate:
  assumes "run_select T recv_recalculate r = Some (r1, tr1)"
  shows "recalculations tr1 = 1"
proof -
  from assms have "tr1 = snd (calculate T (r\<lparr>recalculate := None\<rparr>))"
    by (cases "recalculate r") (auto split: prod.splits)
  then show ?thesis by (simp add: calculate_recalculations)
qed

lemma run_select_wait:
  assumes "run_select T recv_wait r = Some (r1, tr1)" and "recalculations tr1 = 0"
  shows "r1 = r \<and> tr1 = [Close_done]"
proof (cases "recalculate r")
  case None
  with assms(1) show ?thesis by auto
next
  case (Some s)
  with assms(1) have "tr1 = snd (calculate T (r\<lparr>recalculate := None\<rparr>)) @ [Close_done]"
    by (auto split: prod.splits)
  with assms(2) show ?thesis
    by (simp add: recalculations_append calculate_recalculations)
qed

text \<open>A step without a recalculation keeps every broadcast entry.\<close>

lemma exec_step_keeps:
  assumes "exec_step s r = Some (r1, tr1)" and "recalculations tr1 = 0"
    and "deref b r n = Some S"
  shows "deref b r1 n = Some S"
proof (cases s)
  case (loop T q)
  show ?thesis
  proof (cases q)
    case recv_recalculate
    with loop assms(1,2) show ?thesis
      using run_select_recalculate by fastforce
  next
    case recv_wait
    with loop assms show ?thesis
      using run_select_wait by fastforce
  next
    case (recv_action c)
    with loop assms(1) have "r1 = fst (action_func T c r)" by auto
    with assms(3) show ?thesis by (simp add: action_func_keeps)
  qed
next
  case call_Recalculate
  with assms(1,3) show ?thesis by (auto simp: Recalculate_deref)
next
  case (call_OnChange cb)
  with assms(1,3) show ?thesis by (auto simp: OnChange_deref)
qed

lemma exec_Cons_Some:
  assumes "exec (s # ss) r = Some (r', tr)"
  obtains r1 tr1 tr2 where "exec_step s r = Some (r1, tr1)" and "exec ss r1 = Some (r', tr2)"
    and "tr = tr1 @ tr2"
  using assms by (auto split: option.splits prod.splits)

lemma exec_keeps:
  "exec ss r = Some (r', tr) \<Longrightarrow> recalculations tr = 0 \<Longrightarrow> deref b r n = Some S
     \<Longrightarrow> deref b r' n = Some S"
proof (induction ss arbitrary: r tr)
  case Nil
  then show ?case by simp
next
  case (Cons s ss)
  from Cons.prems(1) obtain r1 tr1 tr2 where
    s: "exec_step s r = Some (r1, tr1)" and ss: "exec ss r1 = Some (r', tr2)" and tr: "tr = tr1 @ tr2"
    by (rule exec_Cons_Some)
  from Cons.prems(2) tr have z: "recalculations tr1 = 0" "recalculations tr2 = 0"
    by (simp_all add: recalculations_append)
  from s z(1) Cons.prems(3) have "deref b r1 n = Some S" by (rule exec_step_keeps)
  with Cons.IH ss z(2) show ?case by blast
qed

text \<open>
  C2. Let \<^verbatim>\<open>lookupOrCalculate\<close> (\<^verbatim>\<open>Broadcast\<close> with the table \<^verbatim>\<open>broadcast\<close>, \<^verbatim>\<open>BroadcastAll\<close>
  with \<^verbatim>\<open>broadcastAll\<close>) return \<open>S\<close> for a name \<open>X\<close> that the table did not hold, and let
  any steps follow in which no full recalculation takes place, under any topologies.
  Then a further call for \<open>X\<close> returns \<open>S\<close> from the table: its only events are the read
  lock and unlock, and the state stays as it is. A caller whose own lookup came too
  early and whose function literal the loop runs now is sent \<open>S\<close> as well, and
  \<^verbatim>\<open>calculateBroadcast\<close> is not called.
\<close>

theorem broadcast_cache_coherence:
  assumes miss: "deref b r X = None"
    and first: "lookupOrCalculate T X b eas r = Some (S, r1, tr1)"
    and between: "exec ss r1 = Some (r2, tr2)"
    and no_recalculation: "recalculations tr2 = 0"
  shows "lookupOrCalculate T' X b eas r2 = Some (S, r2, [RLock routes_mu, RUnlock routes_mu])
       \<and> action_func T' \<lparr>c_name = X, c_broadcast = b, c_establishedAndSymmetric = eas\<rparr> r2
           = (r2, [RLock routes_mu, RUnlock routes_mu, Send_res S])"
proof -
  let ?c = "\<lparr>c_name = X, c_broadcast = b, c_establishedAndSymmetric = eas\<rparr>"
  have fill: "action_func T ?c r
     = (store b X (calculateBroadcast T r X eas) r,
        [RLock routes_mu, RUnlock routes_mu, RLock peers_mu, RLock ourself_mu,
         Call_calculateBroadcast X eas, RUnlock ourself_mu, RUnlock peers_mu,
         Send_res (calculateBroadcast T r X eas),
         Lock routes_mu, Store b X (calculateBroadcast T r X eas), Unlock routes_mu])"
    using miss by (simp add: action_func_def Let_def)
  from first miss have S: "S = calculateBroadcast T r X eas"
    and r1: "r1 = store b X (calculateBroadcast T r X eas) r"
    by (auto simp: lookupOrCalculate_def fill)
  have "deref b r1 X = Some S"
    unfolding r1 S by (rule deref_store_same)
  with between no_recalculation have cached: "deref b r2 X = Some S"
    by (rule exec_keeps)
  then show ?thesis
    by (simp add: lookupOrCalculate_def action_func_def)
qed

lemma action_func_derivations:
  assumes "api_closure c"
  shows "derivations_of (snd (action_func T c r)) = []
       \<or> (\<exists>n e. derivations_of (snd (action_func T c r)) = [(n, e)]
              \<and> deref (ref_of e) r n = None \<and> deref (ref_of e) (fst (action_func T c r)) n \<noteq> None)"
proof (cases "deref (c_broadcast c) r (c_name c)")
  case None
  have "derivations_of (snd (action_func T c r)) = [(c_name c, c_establishedAndSymmetric c)]"
    using None by (simp add: action_func_def Let_def)
  moreover have "deref (ref_of (c_establishedAndSymmetric c)) r (c_name c) = None"
    using None assms by (simp add: api_closure_def)
  moreover have "deref (ref_of (c_establishedAndSymmetric c)) (fst (action_func T c r)) (c_name c) \<noteq> None"
    using None assms by (simp add: api_closure_def action_func_def Let_def deref_store_same)
  ultimately show ?thesis by blast
next
  case (Some hops)
  then show ?thesis by (simp add: action_func_def)
qed

text \<open>A step without a recalculation calls \<^verbatim>\<open>calculateBroadcast\<close> at most once, for a name
  its table lacks before the step and holds after it.\<close>

lemma exec_step_derivations:
  assumes "exec_step s r = Some (r1, tr1)" and "recalculations tr1 = 0" and "api_step s"
  shows "derivations_of tr1 = []
       \<or> (\<exists>n e. derivations_of tr1 = [(n, e)]
              \<and> deref (ref_of e) r n = None \<and> deref (ref_of e) r1 n \<noteq> None)"
proof (cases s)
  case (loop T q)
  show ?thesis
  proof (cases q)
    case recv_recalculate
    with loop assms(1,2) show ?thesis
      using run_select_recalculate by fastforce
  next
    case recv_wait
    with loop assms(1,2) have "tr1 = [Close_done]"
      using run_select_wait by fastforce
    then show ?thesis by simp
  next
    case (recv_action c)
    with loop assms(1) have "r1 = fst (action_func T c r)" "tr1 = snd (action_func T c r)"
      by auto
    moreover from recv_action loop assms(3) have "api_closure c" by simp
    ultimately show ?thesis
      using action_func_derivations by blast
  qed
next
  case call_Recalculate
  with assms(1) show ?thesis by auto
next
  case (call_OnChange cb)
  with assms(1) show ?thesis by auto
qed

text \<open>
  C8. Take any steps between two full recalculations, so that none of them recalculates:
  iterations of the run loop that run the function literals of callers, as many for one
  name as there are callers that missed it, barriers, and calls of \<^verbatim>\<open>Recalculate\<close> and
  \<^verbatim>\<open>OnChange\<close>. For every name and filter, \<^verbatim>\<open>calculateBroadcast\<close> is called at most once in
  these steps, and not at all when the table of that filter holds the name at the start.
  The local peer's own two entries are derived inside a full recalculation, which is not
  one of these steps.
\<close>

theorem one_derivation_between_recalculations:
  assumes "exec ss r = Some (r', tr)" and "recalculations tr = 0" and "list_all api_step ss"
  shows "count_list (derivations_of tr) (name, eas) \<le> 1
       \<and> (deref (ref_of eas) r name \<noteq> None \<longrightarrow> (name, eas) \<notin> set (derivations_of tr))"
  using assms
proof (induction ss arbitrary: r tr)
  case Nil
  then show ?case by simp
next
  case (Cons s ss)
  from Cons.prems(1) obtain r1 tr1 tr2 where
    s: "exec_step s r = Some (r1, tr1)" and ss: "exec ss r1 = Some (r', tr2)" and tr: "tr = tr1 @ tr2"
    by (rule exec_Cons_Some)
  from Cons.prems(2) tr have z: "recalculations tr1 = 0" "recalculations tr2 = 0"
    by (simp_all add: recalculations_append)
  from Cons.prems(3) have api: "api_step s" "list_all api_step ss" by simp_all
  from Cons.IH [OF ss z(2) api(2)]
  have rest: "count_list (derivations_of tr2) (name, eas) \<le> 1"
    and rest_hit: "deref (ref_of eas) r1 name \<noteq> None \<Longrightarrow> (name, eas) \<notin> set (derivations_of tr2)"
    by blast+
  have keep: "deref (ref_of eas) r name \<noteq> None \<Longrightarrow> deref (ref_of eas) r1 name \<noteq> None"
    using exec_step_keeps [OF s z(1)] by fastforce
  from exec_step_derivations [OF s z(1) api(1)]
  consider (quiet) "derivations_of tr1 = []"
    | (fill) n e where "derivations_of tr1 = [(n, e)]" "deref (ref_of e) r n = None"
        "deref (ref_of e) r1 n \<noteq> None"
    by blast
  then show ?case
  proof cases
    case quiet
    with rest rest_hit keep show ?thesis
      by (auto simp: tr derivations_of_append)
  next
    case fill
    show ?thesis
    proof (cases "(n, e) = (name, eas)")
      case True
      with fill rest_hit have "(name, eas) \<notin> set (derivations_of tr2)" by simp
      then have "count_list (derivations_of tr2) (name, eas) = 0"
        by (simp add: count_list_0_iff)
      with True fill show ?thesis
        by (auto simp: tr derivations_of_append)
    next
      case False
      with fill rest rest_hit keep show ?thesis
        by (auto simp: tr derivations_of_append)
    qed
  qed
qed

section \<open>The self entries\<close>

lemma deref_store_grows: "deref b r n \<noteq> None \<Longrightarrow> deref b (store b' n' hops r) n \<noteq> None"
  by (cases b; cases b') auto

lemma store_frame:
  "ourself (store b n hops r) = ourself r"
  "unicast (store b n hops r) = unicast r"
  "unicastAll (store b n hops r) = unicastAll r"
  by (cases b; simp)+

lemma calculate_seeded: "ourself r = p \<Longrightarrow> seeded p (fst (calculate T r))"
  by (simp add: seeded_def calculate_def)

lemma calculate_self_routed:
  "ourself r = p \<Longrightarrow> self_route T p \<Longrightarrow> self_routed p (fst (calculate T r))"
  by (simp add: self_routed_def self_route_def calculate_def calculateUnicast_def)

lemma action_func_seeded: "seeded p r \<Longrightarrow> seeded p (fst (action_func T c r))"
  using deref_store_grows [of ref_broadcast] deref_store_grows [of ref_broadcastAll]
  by (simp add: seeded_def action_func_def Let_def store_frame split: option.split)

lemma action_func_self_routed: "self_routed p r \<Longrightarrow> self_routed p (fst (action_func T c r))"
  by (simp add: self_routed_def action_func_def Let_def store_frame split: option.split)

lemma run_select_seeded:
  assumes "run_select T q r = Some (r1, tr1)" and "seeded p r"
  shows "seeded p r1"
proof -
  from assms(2) have own: "ourself (r\<lparr>recalculate := None\<rparr>) = p"
    by (simp add: seeded_def)
  then have fresh: "seeded p (fst (calculate T (r\<lparr>recalculate := None\<rparr>)))"
    by (rule calculate_seeded)
  show ?thesis
  proof (cases q)
    case recv_recalculate
    with assms(1) have "r1 = fst (calculate T (r\<lparr>recalculate := None\<rparr>))"
      by (cases "recalculate r") (auto split: prod.splits)
    with fresh show ?thesis by simp
  next
    case recv_wait
    with assms(1) have "r1 = r \<or> r1 = fst (calculate T (r\<lparr>recalculate := None\<rparr>))"
      by (cases "recalculate r") (auto split: prod.splits)
    with assms(2) fresh show ?thesis by auto
  next
    case (recv_action c)
    with assms(1) have "r1 = fst (action_func T c r)" by auto
    with assms(2) show ?thesis by (simp add: action_func_seeded)
  qed
qed

lemma run_select_self_routed:
  assumes "run_select T q r = Some (r1, tr1)" and "ourself r = p" and "self_routed p r"
    and "self_route T p"
  shows "self_routed p r1"
proof -
  from assms(2) have "ourself (r\<lparr>recalculate := None\<rparr>) = p" by simp
  then have fresh: "self_routed p (fst (calculate T (r\<lparr>recalculate := None\<rparr>)))"
    using assms(4) by (rule calculate_self_routed)
  show ?thesis
  proof (cases q)
    case recv_recalculate
    with assms(1) have "r1 = fst (calculate T (r\<lparr>recalculate := None\<rparr>))"
      by (cases "recalculate r") (auto split: prod.splits)
    with fresh show ?thesis by simp
  next
    case recv_wait
    with assms(1) have "r1 = r \<or> r1 = fst (calculate T (r\<lparr>recalculate := None\<rparr>))"
      by (cases "recalculate r") (auto split: prod.splits)
    with assms(3) fresh show ?thesis by auto
  next
    case (recv_action c)
    with assms(1) have "r1 = fst (action_func T c r)" by auto
    with assms(3) show ?thesis by (simp add: action_func_self_routed)
  qed
qed

lemma exec_step_seeded:
  assumes "exec_step s r = Some (r1, tr1)" and "seeded p r"
  shows "seeded p r1"
proof (cases s)
  case (loop T q)
  with assms show ?thesis using run_select_seeded by simp
next
  case call_Recalculate
  with assms show ?thesis
    by (cases "recalculate r") (auto simp: seeded_def Recalculate_def)
next
  case (call_OnChange cb)
  with assms show ?thesis by (auto simp: seeded_def OnChange_def)
qed

lemma exec_step_self_routed:
  assumes "exec_step s r = Some (r1, tr1)" and "ourself r = p" and "self_routed p r"
    and "step_self_route p s"
  shows "self_routed p r1"
proof (cases s)
  case (loop T q)
  with assms show ?thesis using run_select_self_routed by simp
next
  case call_Recalculate
  with assms show ?thesis
    by (cases "recalculate r") (auto simp: self_routed_def Recalculate_def)
next
  case (call_OnChange cb)
  with assms show ?thesis by (auto simp: self_routed_def OnChange_def)
qed

lemma exec_seeded: "exec ss r = Some (r', tr) \<Longrightarrow> seeded p r \<Longrightarrow> seeded p r'"
proof (induction ss arbitrary: r tr)
  case Nil
  then show ?case by simp
next
  case (Cons s ss)
  from Cons.prems(1) obtain r1 tr1 tr2 where
    s: "exec_step s r = Some (r1, tr1)" and ss: "exec ss r1 = Some (r', tr2)"
    by (rule exec_Cons_Some)
  from s Cons.prems(2) have "seeded p r1" by (rule exec_step_seeded)
  with Cons.IH ss show ?case by blast
qed

lemma exec_self_routed:
  "exec ss r = Some (r', tr) \<Longrightarrow> seeded p r \<Longrightarrow> self_routed p r
     \<Longrightarrow> list_all (step_self_route p) ss \<Longrightarrow> self_routed p r'"
proof (induction ss arbitrary: r tr)
  case Nil
  then show ?case by simp
next
  case (Cons s ss)
  from Cons.prems(1) obtain r1 tr1 tr2 where
    s: "exec_step s r = Some (r1, tr1)" and ss: "exec ss r1 = Some (r', tr2)"
    by (rule exec_Cons_Some)
  from Cons.prems(4) have c: "step_self_route p s" "list_all (step_self_route p) ss"
    by simp_all
  from Cons.prems(2) have own: "ourself r = p" by (simp add: seeded_def)
  from s Cons.prems(2) have "seeded p r1" by (rule exec_step_seeded)
  moreover from s own Cons.prems(3) c(1) have "self_routed p r1" by (rule exec_step_self_routed)
  ultimately show ?case using Cons.IH ss c(2) by blast
qed

lemma NewRoutes_seeded: "seeded p (NewRoutes p ps)"
  by (simp add: seeded_def NewRoutes_def)

lemma NewRoutes_self_routed: "self_routed p (NewRoutes p ps)"
  by (simp add: self_routed_def NewRoutes_def)

text \<open>
  C1. In every state reached from \<^verbatim>\<open>NewRoutes\<close> by iterations of the run loop
  (recalculations, barriers, lazy fills) and calls of \<^verbatim>\<open>Recalculate\<close> and \<^verbatim>\<open>OnChange\<close>,
  under any topologies, both broadcast tables hold an entry for the local peer's name, so
  \<^verbatim>\<open>Broadcast\<close> and \<^verbatim>\<open>BroadcastAll\<close> for that name return it from the table: the read
  lock and unlock are the only events and nothing is handed to the run loop. When the
  next-hop tables that \<^verbatim>\<open>Peer.Routes\<close> returned in these steps map the local peer to the
  sentinel, as the spec says of them, both unicast tables map the local peer's name to
  \<^verbatim>\<open>UnknownPeerName\<close>, found.
\<close>

theorem self_entries_invariant:
  assumes "exec ss (NewRoutes p ps) = Some (r, tr)"
  shows "ourself r = p
       \<and> (list_all (step_self_route p) ss \<longrightarrow>
            unicast r (Name p) = Some UnknownPeerName
          \<and> unicastAll r (Name p) = Some UnknownPeerName
          \<and> Unicast r (Name p) = (UnknownPeerName, True)
          \<and> UnicastAll r (Name p) = (UnknownPeerName, True))
       \<and> (\<exists>hops. broadcast r (Name p) = Some hops
            \<and> Broadcast T (Name p) r = Some (hops, r, [RLock routes_mu, RUnlock routes_mu]))
       \<and> (\<exists>hops. broadcastAll r (Name p) = Some hops
            \<and> BroadcastAll T (Name p) r = Some (hops, r, [RLock routes_mu, RUnlock routes_mu]))"
proof -
  from assms NewRoutes_seeded have s: "seeded p r" by (rule exec_seeded)
  then obtain hops hopsAll where own: "ourself r = p"
    and b: "broadcast r (Name p) = Some hops" and ba: "broadcastAll r (Name p) = Some hopsAll"
    by (auto simp: seeded_def)
  have "Broadcast T (Name p) r = Some (hops, r, [RLock routes_mu, RUnlock routes_mu])"
    using b by (simp add: Broadcast_def lookupOrCalculate_def)
  moreover have "BroadcastAll T (Name p) r = Some (hopsAll, r, [RLock routes_mu, RUnlock routes_mu])"
    using ba by (simp add: BroadcastAll_def lookupOrCalculate_def)
  moreover have "unicast r (Name p) = Some UnknownPeerName
          \<and> unicastAll r (Name p) = Some UnknownPeerName
          \<and> Unicast r (Name p) = (UnknownPeerName, True)
          \<and> UnicastAll r (Name p) = (UnknownPeerName, True)"
    if "list_all (step_self_route p) ss"
  proof -
    from assms NewRoutes_seeded NewRoutes_self_routed that have "self_routed p r"
      by (rule exec_self_routed)
    then show ?thesis
      by (simp add: self_routed_def Unicast_def UnicastAll_def)
  qed
  ultimately show ?thesis using own b ba by blast
qed

section \<open>Unknown peers\<close>

lemma calculateBroadcast_unknown:
  "byName T (peers r) X = None \<Longrightarrow> calculateBroadcast T r X eas = []"
  by (simp add: calculateBroadcast_def)

lemma lookupOrCalculate_miss:
  "deref b r X = None \<Longrightarrow>
     \<exists>tr. lookupOrCalculate T X b eas r
        = Some (calculateBroadcast T r X eas, store b X (calculateBroadcast T r X eas) r, tr)"
  by (simp add: lookupOrCalculate_def action_func_def Let_def)

lemma lookupOrCalculate_hit:
  "deref b r X = Some hops \<Longrightarrow>
     lookupOrCalculate T X b eas r = Some (hops, r, [RLock routes_mu, RUnlock routes_mu])"
  by (simp add: lookupOrCalculate_def)

lemma lookupOrCalculate_returns: "\<exists>res. lookupOrCalculate T X b eas r = Some res"
proof (cases "deref b r X")
  case None
  then show ?thesis using lookupOrCalculate_miss by blast
next
  case (Some hops)
  then show ?thesis using lookupOrCalculate_hit by blast
qed

text \<open>
  C4, as amended. A name without an entry in a unicast table is reported as not found. For
  a name that \<^verbatim>\<open>peers.byName\<close> lacks, \<^verbatim>\<open>calculateBroadcast\<close> returns the empty list, and
  \<^verbatim>\<open>Broadcast\<close> and \<^verbatim>\<open>BroadcastAll\<close> return the empty list when their table has no entry
  for the name; an entry that the table holds is returned as it is. Both always return.
\<close>

theorem unknown_peer_totality:
  "(unicast r X = None \<longrightarrow> Unicast r X = (zero_PeerName, False))
 \<and> (unicastAll r X = None \<longrightarrow> UnicastAll r X = (zero_PeerName, False))
 \<and> (byName T (peers r) X = None \<longrightarrow> calculateBroadcast T r X eas = [])
 \<and> (byName T (peers r) X = None \<and> broadcast r X = None \<longrightarrow>
      (\<exists>r' tr. Broadcast T X r = Some ([], r', tr)))
 \<and> (byName T (peers r) X = None \<and> broadcastAll r X = None \<longrightarrow>
      (\<exists>r' tr. BroadcastAll T X r = Some ([], r', tr)))
 \<and> (\<forall>hops. broadcast r X = Some hops \<longrightarrow>
      Broadcast T X r = Some (hops, r, [RLock routes_mu, RUnlock routes_mu]))
 \<and> (\<forall>hops. broadcastAll r X = Some hops \<longrightarrow>
      BroadcastAll T X r = Some (hops, r, [RLock routes_mu, RUnlock routes_mu]))
 \<and> (\<exists>res. Broadcast T X r = Some res) \<and> (\<exists>res. BroadcastAll T X r = Some res)"
proof -
  have u: "unicast r X = None \<longrightarrow> Unicast r X = (zero_PeerName, False)"
    "unicastAll r X = None \<longrightarrow> UnicastAll r X = (zero_PeerName, False)"
    by (simp_all add: Unicast_def UnicastAll_def)
  have d: "byName T (peers r) X = None \<longrightarrow> calculateBroadcast T r X eas = []"
    by (simp add: calculateBroadcast_unknown)
  have m: "\<exists>r' tr. Broadcast T X r = Some ([], r', tr)"
    if "byName T (peers r) X = None" "broadcast r X = None"
    using lookupOrCalculate_miss [of ref_broadcast r X T True] that
    by (auto simp: Broadcast_def calculateBroadcast_unknown)
  have ma: "\<exists>r' tr. BroadcastAll T X r = Some ([], r', tr)"
    if "byName T (peers r) X = None" "broadcastAll r X = None"
    using lookupOrCalculate_miss [of ref_broadcastAll r X T False] that
    by (auto simp: BroadcastAll_def calculateBroadcast_unknown)
  have h: "Broadcast T X r = Some (hops, r, [RLock routes_mu, RUnlock routes_mu])"
    if "broadcast r X = Some hops" for hops
    using that by (simp add: Broadcast_def lookupOrCalculate_hit)
  have ha: "BroadcastAll T X r = Some (hops, r, [RLock routes_mu, RUnlock routes_mu])"
    if "broadcastAll r X = Some hops" for hops
    using that by (simp add: BroadcastAll_def lookupOrCalculate_hit)
  have t: "\<exists>res. Broadcast T X r = Some res" "\<exists>res. BroadcastAll T X r = Some res"
    unfolding Broadcast_def BroadcastAll_def by (rule lookupOrCalculate_returns)+
  from u d m ma h ha t show ?thesis by blast
qed

text \<open>
  C4 as stated fails on an entry cached before the peer left. The run loop fills the
  entry of peer 3 while the topology has it, with the hop 2; peer 3 then leaves the
  topology, no recalculation has run yet, and \<^verbatim>\<open>Broadcast\<close> for 3 returns the hop 2.
\<close>

theorem stale_entry_of_departed_peer:
  "exec [loop topo_star (recv_action \<lparr>c_name = 3, c_broadcast = ref_broadcast,
                                      c_establishedAndSymmetric = True\<rparr>)]
        (NewRoutes (Peer 1) 0)
     = Some (store ref_broadcast 3 [2] (NewRoutes (Peer 1) 0),
             [RLock routes_mu, RUnlock routes_mu, RLock peers_mu, RLock ourself_mu,
              Call_calculateBroadcast 3 True, RUnlock ourself_mu, RUnlock peers_mu,
              Send_res [2], Lock routes_mu, Store ref_broadcast 3 [2], Unlock routes_mu])
   \<and> byName topo_pair (peers (store ref_broadcast 3 [2] (NewRoutes (Peer 1) 0))) 3 = None
   \<and> Broadcast topo_pair 3 (store ref_broadcast 3 [2] (NewRoutes (Peer 1) 0))
     = Some ([2], store ref_broadcast 3 [2] (NewRoutes (Peer 1) 0),
             [RLock routes_mu, RUnlock routes_mu])"
  by (simp add: action_func_def calculateBroadcast_def topo_star_def topo_pair_def
      NewRoutes_def Broadcast_def lookupOrCalculate_def Let_def)

section \<open>The neighbour sampler\<close>

lemma Log2_int_floor: "0 < n \<Longrightarrow> Log2_int n = \<lfloor>log 2 (real n)\<rfloor>"
proof -
  assume n: "0 < n"
  then have "0 \<le> log 2 (real n)" by simp
  then have "0 \<le> \<lfloor>log 2 (real n)\<rfloor>" by simp
  with n show ?thesis
    by (simp add: Log2_int_def floorlog_def)
qed

lemma Log2_int_one: "0 < n \<Longrightarrow> Log2_int n \<le> 0 \<Longrightarrow> n = 1"
proof -
  assume n: "0 < n" and "Log2_int n \<le> 0"
  then have "floorlog 2 n \<le> 1"
    by (simp add: Log2_int_def)
  then have "n < 2 ^ 1"
    by (rule floorlog_leD) simp
  with n show ?thesis by simp
qed

lemma destinations_loop_subset:
  "destinations_loop c e vs D \<subseteq> D \<union> {v \<in> set vs. v \<noteq> UnknownPeerName \<and> v \<noteq> e}"
  by (induction vs arbitrary: D) auto

lemma destinations_loop_finite: "finite D \<Longrightarrow> finite (destinations_loop c e vs D)"
  by (induction vs arbitrary: D) auto

lemma destinations_loop_card:
  "finite D \<Longrightarrow> int (card D) < c \<Longrightarrow> int (card (destinations_loop c e vs D)) \<le> c"
proof (induction vs arbitrary: D)
  case Nil
  then show ?case by simp
next
  case (Cons dst rest)
  show ?case
  proof (cases "dst \<noteq> UnknownPeerName \<and> dst \<noteq> e")
    case False
    with Cons show ?thesis by auto
  next
    case True
    from Cons.prems have step: "int (card (insert dst D)) \<le> c"
      by (simp add: card_insert_if)
    show ?thesis
    proof (cases "c \<le> int (card (insert dst D))")
      case full: True
      with True step show ?thesis by simp
    next
      case False
      then have "int (card (insert dst D)) < c" by simp
      with Cons.IH [of "insert dst D"] Cons.prems(1) True False show ?thesis by simp
    qed
  qed
qed

lemma range_map_facts:
  assumes "range_map m es"
  shows "card (dom m) = length es" and "ran m = set (map snd es)" and "finite (ran m)"
proof -
  from assms have d: "distinct (map fst es)" and m: "map_of es = m"
    by (simp_all add: range_map_def)
  have "dom m = set (map fst es)"
    unfolding m [symmetric] by (simp add: dom_map_of_conv_image_fst)
  with d show "card (dom m) = length es"
    by (metis distinct_card length_map)
  from d show r: "ran m = set (map snd es)"
    unfolding m [symmetric] by (simp add: ran_distinct)
  then show "finite (ran m)" by simp
qed

text \<open>A finite table, as every Go map is, has an order of its entries, and
  \<^verbatim>\<open>RandomNeighbours\<close> returns for each.\<close>

lemma range_map_keys:
  assumes d: "distinct ks" and s: "set ks = dom m"
  shows "range_map m (map (\<lambda>k. (k, the (m k))) ks)"
  unfolding range_map_def
proof (intro conjI)
  have "map fst (map (\<lambda>k. (k, the (m k))) ks) = ks"
    by (induction ks) simp_all
  with d show "distinct (map fst (map (\<lambda>k. (k, the (m k))) ks))"
    by (simp only:)
  from s show "map_of (map (\<lambda>k. (k, the (m k))) ks) = m"
    by (rule map_of_map_keys [of ks m])
qed

lemma RandomNeighbours_returns:
  assumes "finite (dom (unicastAll r))"
  shows "\<exists>es res. RandomNeighbours r except es res"
proof -
  from finite_distinct_list [OF assms]
  obtain ks where ks: "set ks = dom (unicastAll r) \<and> distinct ks" ..
  define es where "es = map (\<lambda>k. (k, the (unicastAll r k))) ks"
  have es: "range_map (unicastAll r) es"
    unfolding es_def using ks by (intro range_map_keys [of ks "unicastAll r"]) simp_all
  let ?D = "destinations_loop (Log2_int (card (dom (unicastAll r)))) except (map snd es) {}"
  have "finite ?D" by (rule destinations_loop_finite) simp
  from finite_distinct_list [OF this]
  obtain res where res: "set res = ?D \<and> distinct res" ..
  with es have "RandomNeighbours r except es res"
    by (simp add: RandomNeighbours_def range_set_def)
  then show ?thesis by blast
qed

text \<open>
  C5. In a state whose \<^verbatim>\<open>unicastAll\<close> table holds the local peer's entry, as every
  reachable state does, let \<^verbatim>\<open>RandomNeighbours\<close> return \<open>res\<close>, whatever the order of the
  two \<^verbatim>\<open>range\<close> loops. The names of \<open>res\<close> are distinct; their number is at most the
  integer part of the binary logarithm of the number of entries of the table, and at
  most the number of distinct values of the table other than the sentinel and the
  excluded name; neither the excluded name nor the sentinel is among them, and each is a
  value of the table.
\<close>

theorem sampler_bound:
  assumes ret: "RandomNeighbours r except es res"
    and own: "unicastAll r (Name (ourself r)) = Some UnknownPeerName"
  shows "distinct res
       \<and> int (length res)
           \<le> min \<lfloor>log 2 (real (card (dom (unicastAll r))))\<rfloor>
                 (int (card {v \<in> ran (unicastAll r). v \<noteq> UnknownPeerName \<and> v \<noteq> except}))
       \<and> except \<notin> set res \<and> UnknownPeerName \<notin> set res
       \<and> set res \<subseteq> ran (unicastAll r)"
proof -
  let ?m = "unicastAll r"
  let ?n = "card (dom ?m)"
  let ?D = "destinations_loop (Log2_int ?n) except (map snd es) {}"
  let ?eligible = "{v \<in> ran ?m. v \<noteq> UnknownPeerName \<and> v \<noteq> except}"
  from ret have order: "range_map ?m es" and res: "distinct res" "set res = ?D"
    by (simp_all add: RandomNeighbours_def range_set_def)
  note facts = range_map_facts [OF order]
  have sub: "?D \<subseteq> ?eligible"
    using destinations_loop_subset [of "Log2_int ?n" except "map snd es" "{}"] facts(2)
    by auto
  have fin: "finite ?eligible"
    using facts(3) by simp
  have len: "length res = card ?D"
    using res by (metis distinct_card)
  from sub fin have le_eligible: "card ?D \<le> card ?eligible"
    by (rule card_mono [rotated])
  have "finite (dom ?m)"
    using order finite_dom_map_of [of es] by (simp add: range_map_def)
  moreover from own have "Name (ourself r) \<in> dom ?m" by auto
  ultimately have pos: "0 < ?n"
    by (metis card_gt_0_iff empty_iff)
  have le_log: "int (card ?D) \<le> Log2_int ?n"
  proof (cases "0 < Log2_int ?n")
    case True
    then show ?thesis
      using destinations_loop_card [of "{}" "Log2_int ?n" except "map snd es"] by simp
  next
    case False
    with pos have one: "?n = 1"
      using Log2_int_one by simp
    with facts(1) obtain k v where es: "es = [(k, v)]"
      by (cases es) (auto simp: length_Suc_conv)
    with order have "?m = [k \<mapsto> v]"
      by (auto simp: range_map_def)
    with own have "v = UnknownPeerName"
      by (auto split: if_splits)
    with es have "?D = {}" by simp
    with one show ?thesis
      by (simp add: Log2_int_def compute_floorlog)
  qed
  with pos have "int (card ?D) \<le> \<lfloor>log 2 (real ?n)\<rfloor>"
    by (simp add: Log2_int_floor)
  with le_eligible len res sub show ?thesis
    by auto
qed

section \<open>The two filters\<close>

lemma qualifies_mono: "qualifies cs True a b \<Longrightarrow> qualifies cs False a b"
  by (simp add: qualifies_def)

lemma qualifies_connection: "qualifies cs eas a b \<Longrightarrow> \<exists>e. (a, b, e) \<in> set cs"
  by (auto simp: qualifies_def split: if_splits)

text \<open>Whatever the filter reaches, all connections reach.\<close>

lemma reach_pass_mono:
  "S1 \<subseteq> S2 \<Longrightarrow> reach_pass cs True es S1 \<subseteq> reach_pass cs False es S2"
proof (induction es arbitrary: S1 S2)
  case Nil
  then show ?case by simp
next
  case (Cons c es)
  obtain a b e where c: "c = (a, b, e)" by (cases c)
  let ?S1 = "if a \<in> S1 \<and> qualifies cs True a b then insert b S1 else S1"
  let ?S2 = "if a \<in> S2 \<and> qualifies cs False a b then insert b S2 else S2"
  have "?S1 \<subseteq> ?S2"
    using Cons.prems qualifies_mono [of cs a b] by auto
  then have "reach_pass cs True es ?S1 \<subseteq> reach_pass cs False es ?S2"
    by (rule Cons.IH)
  then show ?case by (simp add: c)
qed

lemma reach_mono: "S1 \<subseteq> S2 \<Longrightarrow> reach n cs True S1 \<subseteq> reach n cs False S2"
proof (induction n arbitrary: S1 S2)
  case 0
  then show ?case by simp
next
  case (Suc n)
  from Suc.prems have "reach_pass cs True cs S1 \<subseteq> reach_pass cs False cs S2"
    by (rule reach_pass_mono)
  then show ?case using Suc.IH by simp
qed

lemma reachable_mono: "reachable cs True src \<subseteq> reachable cs False src"
  by (simp add: reachable_def reach_mono)

text \<open>The passes compute the peers that qualifying connections lead to.\<close>

lemma reach_pass_grows: "S \<subseteq> reach_pass cs eas es S"
proof (induction es arbitrary: S)
  case Nil
  then show ?case by simp
next
  case (Cons c es)
  obtain a b e where c: "c = (a, b, e)" by (cases c)
  let ?S = "if a \<in> S \<and> qualifies cs eas a b then insert b S else S"
  have "S \<subseteq> ?S" by auto
  also have "?S \<subseteq> reach_pass cs eas es ?S" by (rule Cons.IH)
  finally show ?case by (simp add: c)
qed

lemma reach_grows: "S \<subseteq> reach n cs eas S"
proof (induction n arbitrary: S)
  case 0
  then show ?case by simp
next
  case (Suc n)
  have "S \<subseteq> reach_pass cs eas cs S" by (rule reach_pass_grows)
  also have "\<dots> \<subseteq> reach n cs eas (reach_pass cs eas cs S)" by (rule Suc.IH)
  finally show ?case by simp
qed

lemma reach_pass_sound:
  "S \<subseteq> (links cs eas)\<^sup>* `` {src} \<Longrightarrow> reach_pass cs eas es S \<subseteq> (links cs eas)\<^sup>* `` {src}"
proof (induction es arbitrary: S)
  case Nil
  then show ?case by simp
next
  case (Cons c es)
  obtain a b e where c: "c = (a, b, e)" by (cases c)
  let ?S = "if a \<in> S \<and> qualifies cs eas a b then insert b S else S"
  have "?S \<subseteq> (links cs eas)\<^sup>* `` {src}"
  proof (cases "a \<in> S \<and> qualifies cs eas a b")
    case True
    with Cons.prems have "(src, a) \<in> (links cs eas)\<^sup>*" "(a, b) \<in> links cs eas"
      by (auto simp: links_def)
    then have "(src, b) \<in> (links cs eas)\<^sup>*" by (rule rtrancl_into_rtrancl)
    with True Cons.prems show ?thesis by auto
  next
    case False
    with Cons.prems show ?thesis by auto
  qed
  then have "reach_pass cs eas es ?S \<subseteq> (links cs eas)\<^sup>* `` {src}"
    by (rule Cons.IH)
  then show ?case by (simp add: c)
qed

lemma reach_sound:
  "S \<subseteq> (links cs eas)\<^sup>* `` {src} \<Longrightarrow> reach n cs eas S \<subseteq> (links cs eas)\<^sup>* `` {src}"
  by (induction n arbitrary: S) (simp_all add: reach_pass_sound)

text \<open>A pass that meets a qualifying connection from a reached peer reaches its end.\<close>

lemma reach_pass_reaches:
  "(a, b, e) \<in> set es \<Longrightarrow> qualifies cs eas a b \<Longrightarrow> a \<in> S \<Longrightarrow> b \<in> reach_pass cs eas es S"
proof (induction es arbitrary: S)
  case Nil
  then show ?case by simp
next
  case (Cons c es)
  obtain a' b' e' where c: "c = (a', b', e')" by (cases c)
  let ?S = "if a' \<in> S \<and> qualifies cs eas a' b' then insert b' S else S"
  have grow: "S \<subseteq> ?S" by auto
  show ?case
  proof (cases "(a, b, e) = c")
    case True
    with c Cons.prems(2,3) have "b \<in> ?S" by auto
    with reach_pass_grows [of ?S cs eas es] show ?thesis
      by (auto simp: c)
  next
    case False
    with Cons.prems(1) have "(a, b, e) \<in> set es" by simp
    moreover from grow Cons.prems(3) have "a \<in> ?S" by blast
    ultimately have "b \<in> reach_pass cs eas es ?S"
      using Cons.prems(2) Cons.IH [of ?S] by blast
    then show ?thesis by (simp add: c)
  qed
qed

lemma reach_pass_fixed_closed:
  assumes "reach_pass cs eas cs S = S"
  shows "closed_under cs eas S"
  unfolding closed_under_def
proof (intro allI impI)
  fix a b assume ab: "a \<in> S \<and> qualifies cs eas a b"
  then obtain e where "(a, b, e) \<in> set cs"
    using qualifies_connection by blast
  with ab have "b \<in> reach_pass cs eas cs S"
    using reach_pass_reaches by blast
  with assms show "b \<in> S" by simp
qed

lemma closed_reach_pass: "closed_under cs eas S \<Longrightarrow> reach_pass cs eas es S = S"
proof (induction es)
  case Nil
  then show ?case by simp
next
  case (Cons c es)
  obtain a b e where c: "c = (a, b, e)" by (cases c)
  from Cons.prems have "(if a \<in> S \<and> qualifies cs eas a b then insert b S else S) = S"
    by (auto simp: closed_under_def)
  with Cons show ?case by (simp add: c)
qed

lemma closed_reach: "closed_under cs eas S \<Longrightarrow> reach n cs eas S = S"
  by (induction n) (simp_all add: closed_reach_pass)

text \<open>Every peer that a pass adds is the end of a connection.\<close>

lemma reach_pass_targets: "reach_pass cs eas es S \<subseteq> S \<union> (fst \<circ> snd) ` set es"
proof (induction es arbitrary: S)
  case Nil
  then show ?case by simp
next
  case (Cons c es)
  obtain a b e where c: "c = (a, b, e)" by (cases c)
  let ?S = "if a \<in> S \<and> qualifies cs eas a b then insert b S else S"
  have "?S \<subseteq> S \<union> {b}" by auto
  with Cons.IH [of ?S] show ?case by (auto simp: c)
qed

lemma reach_targets: "reach n cs eas S \<subseteq> S \<union> (fst \<circ> snd) ` set cs"
proof (induction n arbitrary: S)
  case 0
  then show ?case by simp
next
  case (Suc n)
  from Suc.IH [of "reach_pass cs eas cs S"] reach_pass_targets [of cs eas cs S]
  show ?case by auto
qed

text \<open>Passes either close the set or add a peer each.\<close>

lemma reach_progress:
  assumes "finite S"
  shows "closed_under cs eas (reach n cs eas S) \<or> card S + n \<le> card (reach n cs eas S)"
  using assms
proof (induction n arbitrary: S)
  case 0
  then show ?case by simp
next
  case (Suc n)
  let ?S = "reach_pass cs eas cs S"
  have fin: "finite ?S"
    using reach_pass_targets [of cs eas cs S] Suc.prems
    by (meson finite_Un finite_imageI finite_set finite_subset)
  show ?case
  proof (cases "?S = S")
    case True
    then have c: "closed_under cs eas S" by (rule reach_pass_fixed_closed)
    then have "reach (Suc n) cs eas S = S"
      by (rule closed_reach)
    with c show ?thesis by simp
  next
    case False
    with reach_pass_grows [of S cs eas cs] have "S \<subset> ?S" by blast
    with fin have "card S < card ?S" by (rule psubset_card_mono)
    with Suc.IH [OF fin] show ?thesis by auto
  qed
qed

lemma reach_closed:
  assumes "finite S"
  shows "closed_under cs eas (reach (length cs) cs eas S)"
proof (rule ccontr)
  let ?w = "reach (length cs) cs eas S"
  let ?targets = "(fst \<circ> snd) ` set cs"
  assume gap: "\<not> closed_under cs eas ?w"
  from gap reach_progress [OF assms, of cs eas "length cs"]
  have many: "card S + length cs \<le> card ?w" by blast
  from gap obtain a b where ab: "a \<in> ?w" "qualifies cs eas a b" "b \<notin> ?w"
    by (auto simp: closed_under_def)
  then have target: "b \<in> ?targets"
    using qualifies_connection [of cs eas a b] by force
  have fin: "finite (S \<union> ?targets)" using assms by simp
  have "insert b ?w \<subseteq> S \<union> ?targets"
    using reach_targets [of "length cs" cs eas S] target by auto
  with fin have "card (insert b ?w) \<le> card (S \<union> ?targets)"
    by (rule card_mono)
  moreover have "finite ?w"
    using reach_targets [of "length cs" cs eas S] fin by (rule finite_subset)
  with ab(3) have "card (insert b ?w) = Suc (card ?w)" by simp
  moreover have "card (S \<union> ?targets) \<le> card S + card ?targets"
    by (rule card_Un_le)
  moreover have "card ?targets \<le> length cs"
    by (metis card_image_le card_length finite_set le_trans)
  ultimately show False using many by linarith
qed

lemma closed_reachable:
  assumes "closed_under cs eas S" and "src \<in> S" and "(src, d) \<in> (links cs eas)\<^sup>*"
  shows "d \<in> S"
  using assms(3,1,2)
  by (induction rule: rtrancl_induct) (auto simp: closed_under_def links_def)

lemma reachable_closure: "reachable cs eas src = (links cs eas)\<^sup>* `` {src}"
proof
  show "reachable cs eas src \<subseteq> (links cs eas)\<^sup>* `` {src}"
    unfolding reachable_def by (rule reach_sound) simp
  have "closed_under cs eas (reachable cs eas src)"
    unfolding reachable_def by (rule reach_closed) simp
  moreover have "src \<in> reachable cs eas src"
    unfolding reachable_def using reach_grows [of "{src}" "length cs" cs eas] by simp
  ultimately have "d \<in> reachable cs eas src" if "(src, d) \<in> (links cs eas)\<^sup>*" for d
    using that by (rule closed_reachable)
  then show "(links cs eas)\<^sup>* `` {src} \<subseteq> reachable cs eas src"
    by auto
qed

lemma calculateBroadcast_reached:
  "calculateBroadcast T r name eas =
     (case reached_for T r name eas of
        None \<Rightarrow> []
      | Some reached \<Rightarrow> map Name (ForEachConnectedPeer T (ourself r) eas reached))"
  by (simp add: calculateBroadcast_def reached_for_def split: option.split prod.split)

text \<open>
  C7, as amended. When \<^verbatim>\<open>Peer.Routes\<close>, called with no stop peer, returns a table with an
  entry for every peer reachable from the local peer and for no other, as the spec says
  of it, the destinations of the unicast table derived under the
  established-and-symmetric filter are among those of the table derived from all
  connections: the connections that pass the filter are among all connections.
\<close>

theorem unicast_filter_monotonicity:
  assumes "unicast_complete cs T (ourself r)"
  shows "dom (calculateUnicast T r True) \<subseteq> dom (calculateUnicast T r False)"
proof -
  from assms have "dom (calculateUnicast T r True) = reachable cs True (Name (ourself r))"
    and "dom (calculateUnicast T r False) = reachable cs False (Name (ourself r))"
    by (simp_all add: unicast_complete_def calculateUnicast_def)
  then show ?thesis
    by (simp add: reachable_mono)
qed

text \<open>
  C7 as stated fails for the sets of reached peers that constrain the broadcast results,
  because the traversal from the origin stops when it takes the local peer. Peer 4 is
  three established connections away from the local peer 1 and one connection that is
  not established. Over all connections the traversal from 4 meets peer 1 at once and
  returns the peers 4, 3 and 1; under the filter it goes along the established
  connections and returns the peers 4, 3, 2 and 1, and peer 2 is not among the former.
\<close>

theorem reached_sets_not_nested:
  "reached_for topo_detour (NewRoutes (Peer 1) 0) 4 True
     = Some [4 \<mapsto> UnknownPeerName, 1 \<mapsto> 3, 2 \<mapsto> 3, 3 \<mapsto> 3]
   \<and> reached_for topo_detour (NewRoutes (Peer 1) 0) 4 False
     = Some [4 \<mapsto> UnknownPeerName, 1 \<mapsto> 1, 3 \<mapsto> 3]
   \<and> \<not> dom ([4 \<mapsto> UnknownPeerName, 1 \<mapsto> 3, 2 \<mapsto> 3, 3 \<mapsto> 3] :: unicastRoutes)
         \<subseteq> dom ([4 \<mapsto> UnknownPeerName, 1 \<mapsto> 1, 3 \<mapsto> 3] :: unicastRoutes)
   \<and> calculateBroadcast topo_detour (NewRoutes (Peer 1) 0) 4 True = []
   \<and> calculateBroadcast topo_detour (NewRoutes (Peer 1) 0) 4 False = [2, 5]"
  by (simp add: reached_for_def calculateBroadcast_def topo_detour_def detour_Routes_def
      NewRoutes_def)

section \<open>The theorems at concrete inputs\<close>

lemmas fixture_defs = topo_star_def topo_pair_def NewRoutes_def UnknownPeerName_def
  calculate_def calculateUnicast_def calculateBroadcast_def action_func_def
  lookupOrCalculate_def Broadcast_def BroadcastAll_def Recalculate_def OnChange_def
  EnsureRecalculated_def Let_def

theorem self_entries_invariant_witness:
  "exec [call_Recalculate, loop topo_star recv_recalculate] (NewRoutes (Peer 1) 0)
     = Some (calculate topo_star (NewRoutes (Peer 1) 0))
   \<and> list_all (step_self_route (Peer 1)) [call_Recalculate, loop topo_star recv_recalculate]
   \<and> unicast (fst (calculate topo_star (NewRoutes (Peer 1) 0))) 1 = Some UnknownPeerName
   \<and> unicastAll (fst (calculate topo_star (NewRoutes (Peer 1) 0))) 1 = Some UnknownPeerName
   \<and> Broadcast topo_pair 1 (fst (calculate topo_star (NewRoutes (Peer 1) 0)))
       = Some ([2, 3], fst (calculate topo_star (NewRoutes (Peer 1) 0)),
               [RLock routes_mu, RUnlock routes_mu])"
proof -
  let ?ss = "[call_Recalculate, loop topo_star recv_recalculate]"
  let ?r = "fst (calculate topo_star (NewRoutes (Peer 1) 0))"
  have run: "exec ?ss (NewRoutes (Peer 1) 0) = Some (?r, snd (calculate topo_star (NewRoutes (Peer 1) 0)))"
    by (simp add: Recalculate_def NewRoutes_def)
  have contract: "list_all (step_self_route (Peer 1)) ?ss"
    by (simp add: self_route_def topo_star_def)
  have entry: "broadcast ?r 1 = Some [2, 3]"
    by (simp add: fixture_defs)
  from self_entries_invariant [OF run, of topo_pair] contract entry
  have "unicast ?r 1 = Some UnknownPeerName \<and> unicastAll ?r 1 = Some UnknownPeerName
      \<and> Broadcast topo_pair 1 ?r = Some ([2, 3], ?r, [RLock routes_mu, RUnlock routes_mu])"
    by auto
  with run contract show ?thesis by simp
qed

theorem broadcast_cache_coherence_witness:
  "deref ref_broadcast (NewRoutes (Peer 1) 0) 3 = None
   \<and> lookupOrCalculate topo_star 3 ref_broadcast True (NewRoutes (Peer 1) 0)
       = Some ([2], store ref_broadcast 3 [2] (NewRoutes (Peer 1) 0),
               [RLock routes_mu, RUnlock routes_mu,
                RLock routes_mu, RUnlock routes_mu, RLock peers_mu, RLock ourself_mu,
                Call_calculateBroadcast 3 True, RUnlock ourself_mu, RUnlock peers_mu,
                Send_res [2], Lock routes_mu, Store ref_broadcast 3 [2], Unlock routes_mu])
   \<and> exec [call_Recalculate,
            loop topo_pair (recv_action \<lparr>c_name = 2, c_broadcast = ref_broadcastAll,
                                         c_establishedAndSymmetric = False\<rparr>)]
           (store ref_broadcast 3 [2] (NewRoutes (Peer 1) 0))
       = Some (store ref_broadcastAll 2 []
                 (Recalculate (store ref_broadcast 3 [2] (NewRoutes (Peer 1) 0))),
               [RLock routes_mu, RUnlock routes_mu, RLock peers_mu, RLock ourself_mu,
                Call_calculateBroadcast 2 False, RUnlock ourself_mu, RUnlock peers_mu,
                Send_res [], Lock routes_mu, Store ref_broadcastAll 2 [], Unlock routes_mu])
   \<and> lookupOrCalculate topo_pair 3 ref_broadcast True
        (store ref_broadcastAll 2 []
           (Recalculate (store ref_broadcast 3 [2] (NewRoutes (Peer 1) 0))))
       = Some ([2],
               store ref_broadcastAll 2 []
                 (Recalculate (store ref_broadcast 3 [2] (NewRoutes (Peer 1) 0))),
               [RLock routes_mu, RUnlock routes_mu])"
proof -
  let ?r = "NewRoutes (Peer 1) 0"
  let ?r1 = "store ref_broadcast 3 [2] ?r"
  let ?r2 = "store ref_broadcastAll 2 [] (Recalculate ?r1)"
  let ?tr2 = "[RLock routes_mu, RUnlock routes_mu, RLock peers_mu, RLock ourself_mu,
                Call_calculateBroadcast 2 False, RUnlock ourself_mu, RUnlock peers_mu,
                Send_res [], Lock routes_mu, Store ref_broadcastAll 2 [], Unlock routes_mu]"
  have miss: "deref ref_broadcast ?r 3 = None"
    by (simp add: NewRoutes_def)
  have first: "lookupOrCalculate topo_star 3 ref_broadcast True ?r
       = Some ([2], ?r1,
               [RLock routes_mu, RUnlock routes_mu,
                RLock routes_mu, RUnlock routes_mu, RLock peers_mu, RLock ourself_mu,
                Call_calculateBroadcast 3 True, RUnlock ourself_mu, RUnlock peers_mu,
                Send_res [2], Lock routes_mu, Store ref_broadcast 3 [2], Unlock routes_mu])"
    by (simp add: fixture_defs)
  have between: "exec [call_Recalculate,
            loop topo_pair (recv_action \<lparr>c_name = 2, c_broadcast = ref_broadcastAll,
                                         c_establishedAndSymmetric = False\<rparr>)] ?r1
       = Some (?r2, ?tr2)"
    by (simp add: fixture_defs)
  have quiet: "recalculations ?tr2 = 0"
    by simp
  from broadcast_cache_coherence [OF miss first between quiet, of topo_pair]
  have "lookupOrCalculate topo_pair 3 ref_broadcast True ?r2
       = Some ([2], ?r2, [RLock routes_mu, RUnlock routes_mu])"
    by simp
  with miss first between show ?thesis by simp
qed

theorem burst_recalculates_once_before_done_witness:
  "(1::nat) \<le> 3
   \<and> (Recalculate ^^ 3) (OnChange 5 (NewRoutes (Peer 1) 0)) = Recalculate (OnChange 5 (NewRoutes (Peer 1) 0))
   \<and> EnsureRecalculated topo_star ((Recalculate ^^ 3) (OnChange 5 (NewRoutes (Peer 1) 0)))
       = Some (fst (calculate topo_star (OnChange 5 (NewRoutes (Peer 1) 0))),
               snd (calculate topo_star (OnChange 5 (NewRoutes (Peer 1) 0))) @ [Close_done])
   \<and> recalculations (snd (calculate topo_star (OnChange 5 (NewRoutes (Peer 1) 0)))) = 1
   \<and> callbacks_of (snd (calculate topo_star (OnChange 5 (NewRoutes (Peer 1) 0)))) = [5]"
proof -
  let ?r = "OnChange 5 (NewRoutes (Peer 1) 0)"
  have n: "(1::nat) \<le> 3" by simp
  have empty: "?r\<lparr>recalculate := None\<rparr> = ?r"
    by (simp add: OnChange_def NewRoutes_def)
  have cbs: "onChange ?r = [5]"
    by (simp add: OnChange_def NewRoutes_def)
  from burst_recalculates_once_before_done [OF n, of ?r topo_star topo_star]
  obtain r' tr where burst: "(Recalculate ^^ 3) ?r = Recalculate ?r"
    and closed: "EnsureRecalculated topo_star ((Recalculate ^^ 3) ?r) = Some (r', tr @ [Close_done])"
    and c: "(r', tr) = calculate topo_star (?r\<lparr>recalculate := None\<rparr>)"
    and once: "recalculations tr = 1" and called: "callbacks_of tr = onChange ?r"
    by blast
  from c empty have "r' = fst (calculate topo_star ?r)" "tr = snd (calculate topo_star ?r)"
    by (metis fst_conv, metis snd_conv)
  with n burst closed once called cbs show ?thesis by simp
qed

theorem unknown_peer_totality_witness:
  "unicast (NewRoutes (Peer 1) 0) 4 = None
   \<and> Unicast (NewRoutes (Peer 1) 0) 4 = (zero_PeerName, False)
   \<and> unicastAll (NewRoutes (Peer 1) 0) 4 = None
   \<and> UnicastAll (NewRoutes (Peer 1) 0) 4 = (zero_PeerName, False)
   \<and> byName topo_star (peers (NewRoutes (Peer 1) 0)) 4 = None
   \<and> calculateBroadcast topo_star (NewRoutes (Peer 1) 0) 4 True = []
   \<and> broadcast (NewRoutes (Peer 1) 0) 4 = None
   \<and> (\<exists>r' tr. Broadcast topo_star 4 (NewRoutes (Peer 1) 0) = Some ([], r', tr))
   \<and> broadcastAll (NewRoutes (Peer 1) 0) 4 = None
   \<and> (\<exists>r' tr. BroadcastAll topo_star 4 (NewRoutes (Peer 1) 0) = Some ([], r', tr))
   \<and> broadcast (NewRoutes (Peer 1) 0) 1 = Some []
   \<and> Broadcast topo_star 1 (NewRoutes (Peer 1) 0)
       = Some ([], NewRoutes (Peer 1) 0, [RLock routes_mu, RUnlock routes_mu])
   \<and> broadcastAll (NewRoutes (Peer 1) 0) 1 = Some []
   \<and> BroadcastAll topo_star 1 (NewRoutes (Peer 1) 0)
       = Some ([], NewRoutes (Peer 1) 0, [RLock routes_mu, RUnlock routes_mu])"
proof -
  let ?r = "NewRoutes (Peer 1) 0"
  have absent: "unicast ?r 4 = None" "unicastAll ?r 4 = None" "broadcast ?r 4 = None"
    "broadcastAll ?r 4 = None" "byName topo_star (peers ?r) 4 = None"
    by (simp_all add: NewRoutes_def topo_star_def)
  have own: "broadcast ?r 1 = Some []" "broadcastAll ?r 1 = Some []"
    by (simp_all add: NewRoutes_def)
  from unknown_peer_totality [of ?r 4 topo_star True] absent
  have unknown: "Unicast ?r 4 = (zero_PeerName, False)" "UnicastAll ?r 4 = (zero_PeerName, False)"
    "calculateBroadcast topo_star ?r 4 True = []"
    "\<exists>r' tr. Broadcast topo_star 4 ?r = Some ([], r', tr)"
    "\<exists>r' tr. BroadcastAll topo_star 4 ?r = Some ([], r', tr)"
    by blast+
  from unknown_peer_totality [of ?r 1 topo_star True] own
  have cached: "Broadcast topo_star 1 ?r = Some ([], ?r, [RLock routes_mu, RUnlock routes_mu])"
    "BroadcastAll topo_star 1 ?r = Some ([], ?r, [RLock routes_mu, RUnlock routes_mu])"
    by blast+
  from absent own unknown cached show ?thesis by blast
qed


theorem calculate_replaces_then_notifies_witness:
  "callbacks_of (snd (calculate topo_star (OnChange 7 (OnChange 5 (NewRoutes (Peer 1) 0))))) = [5, 7]
   \<and> dom (broadcast (fst (calculate topo_star (OnChange 7 (OnChange 5 (NewRoutes (Peer 1) 0)))))) = {1}
   \<and> lookupOrCalculate topo_star 3 ref_broadcast True (OnChange 7 (OnChange 5 (NewRoutes (Peer 1) 0)))
       = Some ([2], store ref_broadcast 3 [2] (OnChange 7 (OnChange 5 (NewRoutes (Peer 1) 0))),
               [RLock routes_mu, RUnlock routes_mu,
                RLock routes_mu, RUnlock routes_mu, RLock peers_mu, RLock ourself_mu,
                Call_calculateBroadcast 3 True, RUnlock ourself_mu, RUnlock peers_mu,
                Send_res [2], Lock routes_mu, Store ref_broadcast 3 [2], Unlock routes_mu])
   \<and> onChange (store ref_broadcast 3 [2] (OnChange 7 (OnChange 5 (NewRoutes (Peer 1) 0)))) = [5, 7]"
proof -
  let ?r = "OnChange 7 (OnChange 5 (NewRoutes (Peer 1) 0))"
  let ?tr = "[RLock routes_mu, RUnlock routes_mu,
                RLock routes_mu, RUnlock routes_mu, RLock peers_mu, RLock ourself_mu,
                Call_calculateBroadcast 3 True, RUnlock ourself_mu, RUnlock peers_mu,
                Send_res [2], Lock routes_mu, Store ref_broadcast 3 [2], Unlock routes_mu]"
  have cbs: "onChange ?r = [5, 7]" and own: "Name (ourself ?r) = 1"
    by (simp_all add: OnChange_def NewRoutes_def)
  have fill: "lookupOrCalculate topo_star 3 ref_broadcast True ?r
       = Some ([2], store ref_broadcast 3 [2] ?r, ?tr)"
    by (simp add: fixture_defs)
  from calculate_replaces_then_notifies [of topo_star ?r "\<lparr>c_name = 3, c_broadcast = ref_broadcast, c_establishedAndSymmetric = True\<rparr>" 3 ref_broadcast True]
  obtain pre where whole: "snd (calculate topo_star ?r)
        = pre @ [Lock routes_mu,
                 Assign f_unicast, Assign f_unicastAll, Assign f_broadcast, Assign f_broadcastAll,
                 Unlock routes_mu] @ map Call_callback (onChange ?r)"
    and quiet: "callbacks_of pre = []"
    and seeded: "dom (broadcast (fst (calculate topo_star ?r))) = {Name (ourself ?r)}"
    and lazy: "\<forall>hops r' tr. lookupOrCalculate topo_star 3 ref_broadcast True ?r = Some (hops, r', tr)
              \<longrightarrow> callbacks_of tr = [] \<and> onChange r' = onChange ?r"
    by (metis snd_conv)
  from whole quiet have "callbacks_of (snd (calculate topo_star ?r)) = onChange ?r"
    by (simp add: callbacks_of_append callbacks_of_map)
  moreover from lazy fill have "onChange (store ref_broadcast 3 [2] ?r) = onChange ?r"
    by blast
  ultimately show ?thesis
    using seeded fill cbs own by simp
qed

theorem calculate_frame_witness:
  "calculate topo_star (OnChange 5 (NewRoutes (Peer 1) 0))
     = (fst (calculate topo_star (OnChange 5 (NewRoutes (Peer 1) 0))),
        snd (calculate topo_star (OnChange 5 (NewRoutes (Peer 1) 0))))
   \<and> onChange (fst (calculate topo_star (OnChange 5 (NewRoutes (Peer 1) 0)))) = [5]
   \<and> ourself (fst (calculate topo_star (OnChange 5 (NewRoutes (Peer 1) 0)))) = Peer 1
   \<and> peers (fst (calculate topo_star (OnChange 5 (NewRoutes (Peer 1) 0)))) = 0
   \<and> callbacks_of (snd (calculate topo_star (OnChange 5 (NewRoutes (Peer 1) 0)))) = [5]
   \<and> callbacks_of (snd (calculate topo_star
        (foldl (\<lambda>r cb. OnChange cb r) (OnChange 5 (NewRoutes (Peer 1) 0)) [7, 9]))) = [5, 7, 9]"
proof -
  let ?r = "OnChange 5 (NewRoutes (Peer 1) 0)"
  have c: "calculate topo_star ?r = (fst (calculate topo_star ?r), snd (calculate topo_star ?r))"
    by simp
  have before: "onChange ?r = [5]" "ourself ?r = Peer 1" "peers ?r = 0"
    by (simp_all add: OnChange_def NewRoutes_def)
  from calculate_frame [OF c, of "[7, 9]"] before c show ?thesis
    by simp
qed

theorem lazy_fill_caches_what_it_sent_witness:
  "deref ref_broadcast (NewRoutes (Peer 1) 0) 3 = None
   \<and> calculateBroadcast topo_star (NewRoutes (Peer 1) 0) 3 True = [2]
   \<and> lookupOrCalculate topo_pair 3 ref_broadcast True
        (fst (action_func topo_star \<lparr>c_name = 3, c_broadcast = ref_broadcast,
                                      c_establishedAndSymmetric = True\<rparr> (NewRoutes (Peer 1) 0)))
       = Some ([2],
               fst (action_func topo_star \<lparr>c_name = 3, c_broadcast = ref_broadcast,
                                      c_establishedAndSymmetric = True\<rparr> (NewRoutes (Peer 1) 0)),
               [RLock routes_mu, RUnlock routes_mu])"
proof -
  let ?r = "NewRoutes (Peer 1) 0"
  let ?c = "\<lparr>c_name = 3, c_broadcast = ref_broadcast, c_establishedAndSymmetric = True\<rparr>"
  have miss: "deref ref_broadcast ?r 3 = None"
    by (simp add: NewRoutes_def)
  have derived: "calculateBroadcast topo_star ?r 3 True = [2]"
    by (simp add: fixture_defs)
  from lazy_fill_caches_what_it_sent [OF miss, of topo_star True topo_pair True]
  obtain hops r' tr where "action_func topo_star ?c ?r = (r', tr)"
    and "hops = calculateBroadcast topo_star ?r 3 True"
    and "lookupOrCalculate topo_pair 3 ref_broadcast True r'
           = Some (hops, r', [RLock routes_mu, RUnlock routes_mu])"
    by blast
  with miss derived show ?thesis by simp
qed

theorem one_derivation_between_recalculations_witness:
  "exec [loop topo_star (recv_action \<lparr>c_name = 3, c_broadcast = ref_broadcast,
                                      c_establishedAndSymmetric = True\<rparr>),
         call_Recalculate,
         loop topo_pair (recv_action \<lparr>c_name = 3, c_broadcast = ref_broadcast,
                                      c_establishedAndSymmetric = True\<rparr>)]
        (NewRoutes (Peer 1) 0)
     = Some (Recalculate (store ref_broadcast 3 [2] (NewRoutes (Peer 1) 0)),
             [RLock routes_mu, RUnlock routes_mu, RLock peers_mu, RLock ourself_mu,
              Call_calculateBroadcast 3 True, RUnlock ourself_mu, RUnlock peers_mu,
              Send_res [2], Lock routes_mu, Store ref_broadcast 3 [2], Unlock routes_mu,
              RLock routes_mu, RUnlock routes_mu, Send_res [2]])
   \<and> count_list (derivations_of
             [RLock routes_mu, RUnlock routes_mu, RLock peers_mu, RLock ourself_mu,
              Call_calculateBroadcast 3 True, RUnlock ourself_mu, RUnlock peers_mu,
              Send_res [2], Lock routes_mu, Store ref_broadcast 3 [2], Unlock routes_mu,
              RLock routes_mu, RUnlock routes_mu, Send_res [2]]) (3, True) \<le> 1
   \<and> deref (ref_of True) (NewRoutes (Peer 1) 0) 1 \<noteq> None
   \<and> (1, True) \<notin> set (derivations_of
             [RLock routes_mu, RUnlock routes_mu, RLock peers_mu, RLock ourself_mu,
              Call_calculateBroadcast 3 True, RUnlock ourself_mu, RUnlock peers_mu,
              Send_res [2], Lock routes_mu, Store ref_broadcast 3 [2], Unlock routes_mu,
              RLock routes_mu, RUnlock routes_mu, Send_res [2]])"
proof -
  let ?c = "\<lparr>c_name = 3, c_broadcast = ref_broadcast, c_establishedAndSymmetric = True\<rparr>"
  let ?ss = "[loop topo_star (recv_action ?c), call_Recalculate, loop topo_pair (recv_action ?c)]"
  let ?tr = "[RLock routes_mu, RUnlock routes_mu, RLock peers_mu, RLock ourself_mu,
              Call_calculateBroadcast 3 True, RUnlock ourself_mu, RUnlock peers_mu,
              Send_res [2], Lock routes_mu, Store ref_broadcast 3 [2], Unlock routes_mu,
              RLock routes_mu, RUnlock routes_mu, Send_res [2]]"
  have run: "exec ?ss (NewRoutes (Peer 1) 0)
     = Some (Recalculate (store ref_broadcast 3 [2] (NewRoutes (Peer 1) 0)), ?tr)"
    by (simp add: fixture_defs)
  have quiet: "recalculations ?tr = 0"
    by simp
  have api: "list_all api_step ?ss"
    by (simp add: api_closure_def)
  have own: "deref (ref_of True) (NewRoutes (Peer 1) 0) 1 \<noteq> None"
    by (simp add: NewRoutes_def)
  from one_derivation_between_recalculations [OF run quiet api, of 3 True]
  have once: "count_list (derivations_of ?tr) (3, True) \<le> 1"
    by blast
  from one_derivation_between_recalculations [OF run quiet api, of 1 True] own
  have "(1, True) \<notin> set (derivations_of ?tr)"
    by blast
  with run once own show ?thesis by blast
qed

theorem sampler_bound_witness:
  "RandomNeighbours (fst (calculate topo_star (NewRoutes (Peer 1) 0))) 7
     [(3, 3), (1, UnknownPeerName), (2, 2)] [3]
   \<and> unicastAll (fst (calculate topo_star (NewRoutes (Peer 1) 0)))
        (Name (ourself (fst (calculate topo_star (NewRoutes (Peer 1) 0))))) = Some UnknownPeerName
   \<and> int (length [3::PeerName])
        \<le> min \<lfloor>log 2 (real (card (dom (unicastAll (fst (calculate topo_star (NewRoutes (Peer 1) 0)))))))\<rfloor>
              (int (card {v \<in> ran (unicastAll (fst (calculate topo_star (NewRoutes (Peer 1) 0)))).
                            v \<noteq> UnknownPeerName \<and> v \<noteq> 7}))
   \<and> 7 \<notin> set [3::PeerName] \<and> UnknownPeerName \<notin> set [3::PeerName]"
proof -
  let ?r = "fst (calculate topo_star (NewRoutes (Peer 1) 0))"
  have table: "unicastAll ?r = [1 \<mapsto> UnknownPeerName, 2 \<mapsto> 2, 3 \<mapsto> 3]"
    and own: "Name (ourself ?r) = 1"
    by (simp_all add: calculate_def calculateUnicast_def topo_star_def NewRoutes_def)
  have order: "range_map (unicastAll ?r) [(3, 3), (1, UnknownPeerName), (2, 2)]"
    unfolding table by (auto simp: range_map_def)
  have size: "card (dom (unicastAll ?r)) = 3"
    unfolding table by simp
  have count: "Log2_int 3 = 1"
    by (simp add: Log2_int_def compute_floorlog)
  have loop: "destinations_loop 1 7 (map snd [(3, 3), (1, UnknownPeerName), (2, 2)]) {} = {3}"
    by (simp add: UnknownPeerName_def)
  have ret: "RandomNeighbours ?r 7 [(3, 3), (1, UnknownPeerName), (2, 2)] [3]"
    unfolding RandomNeighbours_def size count loop using order by (simp add: range_set_def)
  have self: "unicastAll ?r (Name (ourself ?r)) = Some UnknownPeerName"
    unfolding own table by simp
  from sampler_bound [OF ret self] ret self show ?thesis
    by simp
qed

theorem unicast_filter_monotonicity_witness:
  "unicast_complete detour_connections topo_detour (ourself (NewRoutes (Peer 1) 0))
   \<and> calculateUnicast topo_detour (NewRoutes (Peer 1) 0) True
       = [1 \<mapsto> UnknownPeerName, 2 \<mapsto> 2, 3 \<mapsto> 2, 4 \<mapsto> 2]
   \<and> calculateUnicast topo_detour (NewRoutes (Peer 1) 0) False
       = [1 \<mapsto> UnknownPeerName, 2 \<mapsto> 2, 3 \<mapsto> 2, 4 \<mapsto> 4, 5 \<mapsto> 5]
   \<and> dom (calculateUnicast topo_detour (NewRoutes (Peer 1) 0) True)
       \<subseteq> dom (calculateUnicast topo_detour (NewRoutes (Peer 1) 0) False)"
proof -
  let ?r = "NewRoutes (Peer 1) 0"
  have own: "ourself ?r = Peer 1"
    by (simp add: NewRoutes_def)
  have u: "calculateUnicast topo_detour ?r True = [1 \<mapsto> UnknownPeerName, 2 \<mapsto> 2, 3 \<mapsto> 2, 4 \<mapsto> 2]"
    and ua: "calculateUnicast topo_detour ?r False
       = [1 \<mapsto> UnknownPeerName, 2 \<mapsto> 2, 3 \<mapsto> 2, 4 \<mapsto> 4, 5 \<mapsto> 5]"
    by (simp_all add: calculateUnicast_def topo_detour_def detour_Routes_def NewRoutes_def)
  have filtered: "reachable detour_connections True 1 = {1, 2, 3, 4}"
    by (simp add: reachable_def detour_connections_def qualifies_def insert_commute)
  have every: "reachable detour_connections False 1 = {1, 2, 3, 4, 5}"
    by (simp add: reachable_def detour_connections_def qualifies_def insert_commute)
  have complete: "unicast_complete detour_connections topo_detour (ourself ?r)"
    unfolding own unicast_complete_def
    using filtered every
    by (auto simp: topo_detour_def detour_Routes_def)
  from unicast_filter_monotonicity [OF complete] complete u ua show ?thesis
    by simp
qed

end
